theory Spec2Isabelle
  imports Main "HOL-Library.Word" "HOL-Library.AList" "HOL-Library.Multiset"
begin

section \<open>Data model (dbxapi.go)\<close>

text \<open>
  Go's \<open>error\<close> interface holds a value of some dynamic type. The package declares one
  error type of its own, \<open>type Error string\<close>; every other error that reaches the
  watcher comes out of \<open>Client.RPC\<close>, which returns what \<open>encoding/json\<close>,
  \<open>net/http\<close> and \<open>errors.New\<close> made. Such a value is \<open>ForeignError\<close> here (the
  string is its message); it never compares equal to a value of type \<open>Error\<close>.
\<close>

datatype go_error = Error string | ForeignError string

definition ErrCanceled :: go_error where
  "ErrCanceled = Error ''canceled''"

text \<open>
  \<open>DirMode\<close> is an \<open>int\<close> with two named values. The watcher only asks whether the
  mode is \<open>DirModeRecursive\<close>, so any other number acts as \<open>DirModeShallow\<close> does.
\<close>

datatype DirMode = DirModeShallow | DirModeRecursive

record Client =
  AccessToken :: string

text \<open>
  A listing row. The watcher reads \<open>Tag\<close>, \<open>Id\<close> and \<open>PathLower\<close> only; the other
  scalar fields are carried along as payload. The pointer-valued metadata fields
  (timestamps, media info) are never read by the watcher and are left out. The field
  \<open>Id\<close> is written \<open>Id'\<close>. Rows are held by value: two rows with the same fields are
  the same row here, while Go could tell their pointers apart. Every row of a reply is
  taken to be a non-nil pointer, as the JSON decoder makes them for JSON objects.
\<close>

record FolderEntry =
  Tag :: string
  Name :: string
  Id' :: string
  Rev :: string
  Size :: "64 word"
  PathLower :: string
  PathDisplay :: string

text \<open>
  The listing result. The embedded \<open>Result\<close> (the error tag and summary of the API) is
  never read by the watcher and is left out.
\<close>

record ListFolderResult =
  Entries :: "FolderEntry list"
  Cursor :: string
  HasMore :: bool

record ListFolderLongPollResult =
  Changes :: bool
  Backoff :: "64 word"

datatype request =
    ListFolderReq string bool bool bool bool
  | ListFolderContReq string
  | ListFolderLongpollReq string "64 word"

section \<open>The watcher (FolderWatcher)\<close>

text \<open>
  A channel is its capacity and the number of values waiting in its buffer; a channel
  field that is \<open>None\<close> is Go's nil channel. The two maps are Go maps from strings to
  row pointers: a lookup that finds nothing gives nil, which is \<open>None\<close>.
  The maps are the ones the constructor made, never nil maps. The callback \<open>changecb\<close>
  is not stored: each call of it is logged as an event, and the function given to \<open>Run\<close>
  is taken to be not nil.
\<close>

record chan =
  chan_cap :: nat
  chan_len :: nat

record FolderWatcher =
  hasMore :: bool
  exitch :: "chan option"
  cancelch :: "chan option"
  canceled :: bool
  Client :: Client
  Cursor :: string
  Path :: string
  DirMode :: DirMode
  EntriesById :: "string \<rightharpoonup> FolderEntry"
  EntriesByPath :: "string \<rightharpoonup> FolderEntry"
  Exit :: "chan option"

record FolderChanges =
  Added :: "string list"
  Updated :: "string list"
  Removed :: "string list"

definition NewFolderWatcher :: "Client option \<Rightarrow> string \<Rightarrow> DirMode \<Rightarrow> FolderWatcher option" where
  "NewFolderWatcher client path m =
     (case client of
        None \<Rightarrow> None
      | Some c \<Rightarrow>
          (let exitch = \<lparr>chan_cap = 0, chan_len = 0\<rparr>;
               cancelch = \<lparr>chan_cap = 1, chan_len = 0\<rparr>
           in Some \<lparr>hasMore = False, exitch = Some exitch, cancelch = Some cancelch,
                    canceled = False, Client = c, Cursor = '''', Path = path, DirMode = m,
                    EntriesById = Map.empty, EntriesByPath = Map.empty,
                    Exit = Some exitch\<rparr>))"

text \<open>
  \<open>Cancel\<close> is a plain channel send, \<open>w.cancelch <- struct{}{}\<close>. A send completes at
  once when the buffer has room. When the buffer is full, or the channel is nil, the
  calling goroutine is parked; that is the result \<open>None\<close>. A parked send can complete
  only when the worker receives. The worker receives at most once in a run (after that
  \<open>canceled\<close> stays true and the loop exits), and never after \<open>Run\<close> has returned.
\<close>

definition Cancel :: "FolderWatcher \<Rightarrow> FolderWatcher option" where
  "Cancel w =
     (case cancelch w of
        None \<Rightarrow> None
      | Some c \<Rightarrow>
          if chan_len c < chan_cap c
          then Some (w\<lparr>cancelch := Some (c\<lparr>chan_len := chan_len c + 1\<rparr>)\<rparr>)
          else None)"

text \<open>The \<open>select\<close> with a \<open>default\<close> branch: a receive that never waits.\<close>

definition checkCanceled :: "FolderWatcher \<Rightarrow> bool \<times> FolderWatcher" where
  "checkCanceled w =
     (if canceled w then (True, w)
      else (case cancelch w of
              Some c \<Rightarrow>
                if 0 < chan_len c
                then (True, w\<lparr>cancelch := Some (c\<lparr>chan_len := chan_len c - 1\<rparr>),
                               canceled := True\<rparr>)
                else (False, w)
            | None \<Rightarrow> (False, w)))"

section \<open>Effects: the trace, and the transport as a script\<close>

text \<open>
  What the worker does to the outside is logged, in order: a request handed to the
  transport (logged when its reply is taken), a call of the change callback, a call of
  \<open>time.Sleep\<close> with its argument in nanoseconds, and a value sent on the exit channel.

  The transport is a script: the replies it will give, one per request. A reply says
  what \<open>Send\<close> returns for a listing request and for a long-poll request, whether
  \<open>Send\<close> fails (with the message of the foreign error), and whether the caller calls
  \<open>Cancel\<close> while the request is in flight. The worker looks for a cancellation only
  right after a request has come back, so a \<open>Cancel\<close> made at any moment since the
  last look counts as one made in flight; a \<open>Cancel\<close> made before \<open>Run\<close> starts is
  a watcher whose buffer already holds a value.

  The caller is the other end of the exit channel. The worker sends on it only while it
  handles a reply, and returns right after the send; so the reply also says whether the
  caller receives from \<open>Exit\<close> when the worker, handling this reply, offers a value
  there (\<open>exit_received\<close>). A caller that never reads \<open>Exit\<close> is a script of replies
  that all say no.
\<close>

datatype event =
    Sent request
  | Changed FolderChanges
  | Slept int
  | ExitSend go_error

record reply =
  cancel_during :: bool
  list_result :: ListFolderResult
  poll_result :: ListFolderLongPollResult
  send_err :: "string option"
  exit_received :: bool

definition Send_err :: "reply \<Rightarrow> go_error option" where
  "Send_err rp = map_option ForeignError (send_err rp)"

definition in_flight :: "reply \<Rightarrow> FolderWatcher \<Rightarrow> FolderWatcher" where
  "in_flight rp w =
     (if cancel_during rp then (case Cancel w of Some w' \<Rightarrow> w' | None \<Rightarrow> w) else w)"

text \<open>
  A method that makes at most one request either returns (\<open>Done\<close>) or never does,
  parked in a send on the exit channel that does not complete (\<open>Stuck\<close>): the channel
  is nil, or nobody receives. A loop over requests can also use up the script: then the
  worker is waiting for the next reply, in the phase told.
\<close>

datatype 'a step = Done 'a FolderWatcher "event list" | Stuck FolderWatcher "event list"

datatype phase = Fetching | LongPolling

datatype 'a outcome =
    Returns 'a FolderWatcher "event list" "reply list"
  | Parked FolderWatcher "event list"
  | Awaiting phase FolderWatcher "event list"

text \<open>
  \<open>w.exitch <- e\<close>. The exit channel is the one the constructor makes, without a
  buffer (the field is unexported and nothing else assigns it): the send completes when
  the caller receives from \<open>Exit\<close>, which \<open>received\<close> tells, and only then; the event
  logs the value handed over. With no receiver, and on a nil channel, the worker stays
  parked in the send and nothing is handed over (\<open>None\<close>).

  \<open>checkCanceledAndExit\<close> and \<open>checkResult\<close> take \<open>received\<close> with them for the
  sends they make.
\<close>

definition send_exitch ::
  "FolderWatcher \<Rightarrow> bool \<Rightarrow> event list \<Rightarrow> go_error \<Rightarrow> event list option" where
  "send_exitch w received tr e =
     (case exitch w of
        None \<Rightarrow> None
      | Some c \<Rightarrow> if received then Some (tr @ [ExitSend e]) else None)"

definition checkCanceledAndExit :: "FolderWatcher \<Rightarrow> bool \<Rightarrow> event list \<Rightarrow> bool step" where
  "checkCanceledAndExit w received tr =
     (case checkCanceled w of
        (True, w') \<Rightarrow>
          (case send_exitch w' received tr ErrCanceled of
             None \<Rightarrow> Stuck w' tr
           | Some tr' \<Rightarrow> Done True w' tr')
      | (False, w') \<Rightarrow> Done False w' tr)"

text \<open>\<open>Send\<close> hands back a result that is never nil, also when it fails.\<close>

definition checkResult ::
  "FolderWatcher \<Rightarrow> bool \<Rightarrow> event list \<Rightarrow> ListFolderResult \<Rightarrow> go_error option
     \<Rightarrow> bool step" where
  "checkResult w received tr r err =
     (case err of
        Some e \<Rightarrow>
          (case send_exitch w received tr e of
             None \<Rightarrow> Stuck w tr
           | Some tr' \<Rightarrow> Done False w tr')
      | None \<Rightarrow>
          (case checkCanceledAndExit w received tr of
             Done c w' tr' \<Rightarrow>
               if c then Done False w' tr'
               else Done True (w'\<lparr>Cursor := ListFolderResult.Cursor r, hasMore := HasMore r\<rparr>) tr'
           | Stuck w' tr' \<Rightarrow> Stuck w' tr'))"

section \<open>Listing: fetchInitial and fetch\<close>

definition store_entry :: "FolderEntry \<Rightarrow> FolderWatcher \<Rightarrow> FolderWatcher" where
  "store_entry ent w =
     w\<lparr>EntriesById := (EntriesById w)(Id' ent \<mapsto> ent),
       EntriesByPath := (EntriesByPath w)(PathLower ent \<mapsto> ent)\<rparr>"

definition fetchInitial :: "FolderWatcher \<Rightarrow> event list \<Rightarrow> reply \<Rightarrow> bool step" where
  "fetchInitial w tr rp =
     (let tr1 = tr @ [Sent (ListFolderReq (Path w) (DirMode w = DirModeRecursive) False False False)];
          r = list_result rp
      in case checkResult (in_flight rp w) (exit_received rp) tr1 r (Send_err rp) of
           Stuck w' tr' \<Rightarrow> Stuck w' tr'
         | Done ok w' tr' \<Rightarrow>
             if \<not> ok then Done False w' tr'
             else if 0 < length (Entries r)
             then Done True (fold store_entry (Entries r) w')
                    (tr' @ [Changed \<lparr>Added = map Id' (Entries r), Updated = [], Removed = []\<rparr>])
             else Done True w' tr')"

text \<open>
  The body of the row loop of \<open>fetch\<close>. \<open>delm\<close> is the Go map of pending deletions,
  from identity to the vacated path (empty when the slot is reused at once); it is an
  association list with one pair for each key. The two guards \<open>prevEntAtPath != nil\<close>
  that stand in front of \<open>delete(delm, ent.Id)\<close> are kept as the source has them.
\<close>

definition fetch_row ::
  "FolderEntry \<Rightarrow> FolderWatcher \<times> FolderChanges \<times> (string \<times> string) list
     \<Rightarrow> FolderWatcher \<times> FolderChanges \<times> (string \<times> string) list" where
  "fetch_row ent st =
     (case st of (w, changes, delm) \<Rightarrow>
        (let prevEntAtPath = EntriesByPath w (PathLower ent) in
         if Tag ent = ''deleted'' then
           (case prevEntAtPath of
              Some prev \<Rightarrow> (w, changes, AList.update (Id' prev) (PathLower ent) delm)
            | None \<Rightarrow> (w, changes, delm))
         else
           (case
              (case prevEntAtPath of
                 Some prev \<Rightarrow>
                   if Id' prev \<noteq> Id' ent then
                     (if EntriesById w (Id' prev) \<noteq> None
                      then (changes\<lparr>Updated := Updated changes @ [Id' ent]\<rparr>,
                            AList.update (Id' prev) '''' delm)
                      else (changes\<lparr>Added := Added changes @ [Id' ent]\<rparr>, delm))
                   else
                     (changes\<lparr>Updated := Updated changes @ [Id' ent]\<rparr>,
                      if prevEntAtPath \<noteq> None then AList.delete (Id' ent) delm else delm)
               | None \<Rightarrow>
                   (changes\<lparr>Added := Added changes @ [Id' ent]\<rparr>,
                    if prevEntAtPath \<noteq> None then AList.delete (Id' ent) delm else delm))
            of (changes', delm') \<Rightarrow> (store_entry ent w, changes', delm'))))"

text \<open>
  The loop over \<open>delm\<close>. Go visits the pairs of a map in no fixed order; the model
  visits them in list order. The store that results does not depend on the order
  (\<open>fetch_resolve_order\<close> below); the order of \<open>Removed\<close> does, and no statement here
  relies on it beyond its elements.
\<close>

definition resolve_row :: "string \<times> string \<Rightarrow> FolderWatcher \<Rightarrow> FolderWatcher" where
  "resolve_row p w =
     (case p of (id', removedPath) \<Rightarrow>
        (let w1 = w\<lparr>EntriesById := (EntriesById w)(id' := None)\<rparr>
         in if length removedPath \<noteq> 0
            then w1\<lparr>EntriesByPath := (EntriesByPath w1)(removedPath := None)\<rparr>
            else w1))"

definition fetch_entries :: "FolderWatcher \<Rightarrow> FolderEntry list \<Rightarrow> FolderWatcher \<times> FolderChanges" where
  "fetch_entries w ents =
     (case fold fetch_row ents (w, \<lparr>Added = [], Updated = [], Removed = []\<rparr>, []) of
        (w1, changes, delm) \<Rightarrow> (fold resolve_row delm w1, changes\<lparr>Removed := map fst delm\<rparr>))"

definition fetch :: "FolderWatcher \<Rightarrow> event list \<Rightarrow> reply \<Rightarrow> bool step" where
  "fetch w tr rp =
     (if FolderWatcher.Cursor w = '''' then fetchInitial w tr rp
      else
        (let tr1 = tr @ [Sent (ListFolderContReq (FolderWatcher.Cursor w))];
             r = list_result rp
         in case checkResult (in_flight rp w) (exit_received rp) tr1 r (Send_err rp) of
              Stuck w' tr' \<Rightarrow> Stuck w' tr'
            | Done ok w' tr' \<Rightarrow>
                if \<not> ok then Done False w' tr'
                else if length (Entries r) = 0 then Done True w' tr'
                else
                  (case fetch_entries w' (Entries r) of
                     (w'', changes) \<Rightarrow>
                       if 0 < length (Added changes) \<or> 0 < length (Updated changes)
                          \<or> 0 < length (Removed changes)
                       then Done True w'' (tr' @ [Changed changes])
                       else Done True w'' tr')))"

section \<open>Long-polling: waitForChanges\<close>

text \<open>
  \<open>time.Duration(r.Backoff) * time.Second\<close>: the unsigned 64-bit count is converted to
  the signed 64-bit \<open>Duration\<close> (same bits) and multiplied by \<open>1000000000\<close>; both
  wrap around. \<open>time.Sleep d\<close> pauses for at least \<open>d\<close> nanoseconds when \<open>d\<close> is
  positive and returns at once when it is zero or negative.
\<close>

definition Second :: "64 word" where
  "Second = 1000000000"

definition sleep_arg :: "64 word \<Rightarrow> int" where
  "sleep_arg backoff = sint (backoff * Second)"

fun waitForChanges :: "FolderWatcher \<Rightarrow> event list \<Rightarrow> reply list \<Rightarrow> bool outcome" where
  "waitForChanges w tr [] = Awaiting LongPolling w tr"
| "waitForChanges w tr (rp # rest) =
     (let tr1 = tr @ [Sent (ListFolderLongpollReq (FolderWatcher.Cursor w) 30)];
          w1 = in_flight rp w;
          r = poll_result rp
      in case Send_err rp of
           Some e \<Rightarrow>
             (case send_exitch w1 (exit_received rp) tr1 e of
                None \<Rightarrow> Parked w1 tr1
              | Some tr2 \<Rightarrow> Returns False w1 tr2 rest)
         | None \<Rightarrow>
             (case checkCanceledAndExit w1 (exit_received rp) tr1 of
                Stuck w2 tr2 \<Rightarrow> Parked w2 tr2
              | Done c w2 tr2 \<Rightarrow>
                  if c then Returns False w2 tr2 rest
                  else
                    (let tr3 = (if 0 < Backoff r then tr2 @ [Slept (sleep_arg (Backoff r))] else tr2)
                     in if Changes r then Returns True (w2\<lparr>hasMore := True\<rparr>) tr3 rest
                        else waitForChanges w2 tr3 rest)))"

section \<open>The run loop\<close>

text \<open>
  The inner loop of \<open>Run\<close>: fetch until a fetch fails (\<open>Run\<close> returns; the result
  \<open>False\<close>) or \<open>hasMore\<close> is false (the \<open>break\<close>; the result \<open>True\<close>).
\<close>

fun Run_fetch :: "FolderWatcher \<Rightarrow> event list \<Rightarrow> reply list \<Rightarrow> bool outcome" where
  "Run_fetch w tr [] = Awaiting Fetching w tr"
| "Run_fetch w tr (rp # rest) =
     (case fetch w tr rp of
        Stuck w' tr' \<Rightarrow> Parked w' tr'
      | Done ok w' tr' \<Rightarrow>
          if \<not> ok then Returns False w' tr' rest
          else if \<not> hasMore w' then Returns True w' tr' rest
          else Run_fetch w' tr' rest)"

function Run :: "FolderWatcher \<Rightarrow> event list \<Rightarrow> reply list \<Rightarrow> unit outcome" where
  "Run w tr s =
     (case Run_fetch w tr s of
        Parked w' tr' \<Rightarrow> Parked w' tr'
      | Awaiting ph w' tr' \<Rightarrow> Awaiting ph w' tr'
      | Returns ok w' tr' rest \<Rightarrow>
          if \<not> ok then Returns () w' tr' rest
          else
            (case waitForChanges w' tr' rest of
               Parked w'' tr'' \<Rightarrow> Parked w'' tr''
             | Awaiting ph w'' tr'' \<Rightarrow> Awaiting ph w'' tr''
             | Returns ok' w'' tr'' rest' \<Rightarrow>
                 if \<not> ok' then Returns () w'' tr'' rest'
                 else Run w'' tr'' rest'))"
  by pat_completeness auto
termination
proof (relation "measure (\<lambda>(w, tr, s). length s)")
  show "wf (measure (\<lambda>(w, tr, s). length s))" by simp
next
  fix w tr s x1 x2 x3 x4 y1 y2 y3 y4
  assume a: "Run_fetch w tr s = Returns x1 x2 x3 x4"
    and b: "waitForChanges x2 x3 x4 = Returns y1 y2 y3 y4"
  have fetch_shorter: "length rest < length s'"
    if "Run_fetch v t s' = Returns ok v' t' rest" for v t s' ok v' t' rest
    using that
    by (induction s' arbitrary: v t) (fastforce split: step.splits if_splits)+
  have wait_shorter: "length rest < length s'"
    if "waitForChanges v t s' = Returns ok v' t' rest" for v t s' ok v' t' rest
    using that
    by (induction s' arbitrary: v t)
       (fastforce simp: Let_def split: option.splits step.splits if_splits)+
  have "length x4 < length s" using a by (rule fetch_shorter)
  moreover have "length y4 < length x4" using b by (rule wait_shorter)
  ultimately show "((y2, y3, y4), (w, tr, s)) \<in> measure (\<lambda>(w, tr, s). length s)" by simp
qed

declare Run.simps [simp del]

section \<open>Reading an outcome\<close>

fun step_watcher :: "'a step \<Rightarrow> FolderWatcher" where
  "step_watcher (Done x w tr) = w"
| "step_watcher (Stuck w tr) = w"

fun step_trace :: "'a step \<Rightarrow> event list" where
  "step_trace (Done x w tr) = tr"
| "step_trace (Stuck w tr) = tr"

fun outcome_watcher :: "'a outcome \<Rightarrow> FolderWatcher" where
  "outcome_watcher (Returns x w tr rest) = w"
| "outcome_watcher (Parked w tr) = w"
| "outcome_watcher (Awaiting ph w tr) = w"

fun outcome_trace :: "'a outcome \<Rightarrow> event list" where
  "outcome_trace (Returns x w tr rest) = tr"
| "outcome_trace (Parked w tr) = tr"
| "outcome_trace (Awaiting ph w tr) = tr"

text \<open>The values sent on the exit channel, and the requests made, in a trace.\<close>

fun exit_sends :: "event list \<Rightarrow> go_error list" where
  "exit_sends [] = []"
| "exit_sends (ExitSend e # evs) = e # exit_sends evs"
| "exit_sends (ev # evs) = exit_sends evs"

fun requests :: "event list \<Rightarrow> request list" where
  "requests [] = []"
| "requests (Sent q # evs) = q # requests evs"
| "requests (ev # evs) = requests evs"

text \<open>A row that is not a tombstone.\<close>

definition is_content :: "FolderEntry \<Rightarrow> bool" where
  "is_content ent = (Tag ent \<noteq> ''deleted'')"

text \<open>
  Each map is keyed by what it says: an entry filed under an identity has that identity,
  and an entry filed under a path has that path.
\<close>

definition keys_agree :: "FolderWatcher \<Rightarrow> bool" where
  "keys_agree w =
     ((\<forall>k e. EntriesById w k = Some e \<longrightarrow> Id' e = k) \<and>
      (\<forall>p e. EntriesByPath w p = Some e \<longrightarrow> PathLower e = p))"

section \<open>Example data\<close>

definition ex_entry :: "string \<Rightarrow> string \<Rightarrow> string \<Rightarrow> FolderEntry" where
  "ex_entry t i p =
     \<lparr>Tag = t, Name = '''', Id' = i, Rev = '''', Size = 0, PathLower = p, PathDisplay = p\<rparr>"

definition ex_A :: FolderEntry where
  "ex_A = ex_entry ''file'' ''id1'' ''/x''"

definition ex_B :: FolderEntry where
  "ex_B = ex_entry ''file'' ''id2'' ''/y''"

text \<open>A tombstone row: the feed gives it a path and no identity.\<close>

definition ex_T :: FolderEntry where
  "ex_T = ex_entry ''deleted'' '''' ''/x''"

definition ex_listing :: "FolderEntry list \<Rightarrow> string \<Rightarrow> bool \<Rightarrow> reply" where
  "ex_listing ents c hm =
     \<lparr>cancel_during = False,
      list_result = \<lparr>Entries = ents, Cursor = c, HasMore = hm\<rparr>,
      poll_result = \<lparr>Changes = False, Backoff = 0\<rparr>,
      send_err = None,
      exit_received = True\<rparr>"

definition ex_poll :: "bool \<Rightarrow> 64 word \<Rightarrow> reply" where
  "ex_poll ch b =
     \<lparr>cancel_during = False,
      list_result = \<lparr>Entries = [], Cursor = '''', HasMore = False\<rparr>,
      poll_result = \<lparr>Changes = ch, Backoff = b\<rparr>,
      send_err = None,
      exit_received = True\<rparr>"

definition ex_failure :: "string \<Rightarrow> reply" where
  "ex_failure msg = (ex_poll False 0)\<lparr>send_err := Some msg\<rparr>"

definition ex_watcher :: FolderWatcher where
  "ex_watcher =
     \<lparr>hasMore = False,
      exitch = Some \<lparr>chan_cap = 0, chan_len = 0\<rparr>,
      cancelch = Some \<lparr>chan_cap = 1, chan_len = 0\<rparr>,
      canceled = False, Client = \<lparr>AccessToken = ''token''\<rparr>, Cursor = '''',
      Path = ''/'', DirMode = DirModeRecursive,
      EntriesById = Map.empty, EntriesByPath = Map.empty,
      Exit = Some \<lparr>chan_cap = 0, chan_len = 0\<rparr>\<rparr>"

text \<open>A watcher that has listed the given rows and holds the cursor \<open>c0\<close>.\<close>

definition ex_tracking :: "FolderEntry list \<Rightarrow> FolderWatcher" where
  "ex_tracking ents = fold store_entry ents (ex_watcher\<lparr>Cursor := ''c0''\<rparr>)"

section \<open>Frame facts: what each step leaves alone\<close>

lemmas ex_defs = ex_A_def ex_B_def ex_T_def ex_tracking_def ex_entry_def ex_listing_def
  ex_poll_def ex_failure_def ex_watcher_def

lemmas run_defs = fetch_def fetchInitial_def checkResult_def checkCanceledAndExit_def
  checkCanceled_def send_exitch_def in_flight_def Cancel_def Send_err_def fetch_entries_def
  fetch_row_def resolve_row_def store_entry_def Let_def

lemmas ex_simps = ex_defs is_content_def in_flight_def checkCanceled_def store_entry_def

lemma in_flight_fields [simp]:
  "EntriesById (in_flight rp w) = EntriesById w"
  "EntriesByPath (in_flight rp w) = EntriesByPath w"
  "FolderWatcher.Cursor (in_flight rp w) = FolderWatcher.Cursor w"
  "exitch (in_flight rp w) = exitch w"
  by (simp_all add: in_flight_def Cancel_def split: option.splits)

lemma store_entry_fields [simp]:
  "EntriesById (store_entry ent w) = (EntriesById w)(Id' ent \<mapsto> ent)"
  "EntriesByPath (store_entry ent w) = (EntriesByPath w)(PathLower ent \<mapsto> ent)"
  "exitch (store_entry ent w) = exitch w"
  "FolderWatcher.Cursor (store_entry ent w) = FolderWatcher.Cursor w"
  "hasMore (store_entry ent w) = hasMore w"
  by (simp_all add: store_entry_def)

lemma fold_store_entry_fields [simp]:
  "exitch (fold store_entry ents w) = exitch w"
  "FolderWatcher.Cursor (fold store_entry ents w) = FolderWatcher.Cursor w"
  "hasMore (fold store_entry ents w) = hasMore w"
  by (induction ents arbitrary: w) simp_all

lemma resolve_row_fields [simp]:
  "EntriesById (resolve_row p w) = (EntriesById w)(fst p := None)"
  "EntriesByPath (resolve_row p w) =
     (if snd p = [] then EntriesByPath w else (EntriesByPath w)(snd p := None))"
  "exitch (resolve_row p w) = exitch w"
  "FolderWatcher.Cursor (resolve_row p w) = FolderWatcher.Cursor w"
  "hasMore (resolve_row p w) = hasMore w"
  by (simp_all add: resolve_row_def Let_def split: prod.splits)

lemma fold_resolve_row_fields [simp]:
  "exitch (fold resolve_row delm w) = exitch w"
  "FolderWatcher.Cursor (fold resolve_row delm w) = FolderWatcher.Cursor w"
  "hasMore (fold resolve_row delm w) = hasMore w"
  by (induction delm arbitrary: w) simp_all

lemma fetch_row_watcher:
  "fst (fetch_row ent st) = (if Tag ent = ''deleted'' then fst st else store_entry ent (fst st))"
  by (simp add: fetch_row_def Let_def split: prod.splits option.splits)

lemma fold_fetch_row_fields [simp]:
  "exitch (fst (fold fetch_row ents st)) = exitch (fst st)"
  "FolderWatcher.Cursor (fst (fold fetch_row ents st)) = FolderWatcher.Cursor (fst st)"
  "hasMore (fst (fold fetch_row ents st)) = hasMore (fst st)"
  by (induction ents arbitrary: st) (simp_all add: fetch_row_watcher)

lemma fetch_entries_proj:
  "fst (fetch_entries w ents) =
     fold resolve_row
       (snd (snd (fold fetch_row ents (w, \<lparr>Added = [], Updated = [], Removed = []\<rparr>, []))))
       (fst (fold fetch_row ents (w, \<lparr>Added = [], Updated = [], Removed = []\<rparr>, [])))"
  "Added (snd (fetch_entries w ents)) =
     Added (fst (snd (fold fetch_row ents (w, \<lparr>Added = [], Updated = [], Removed = []\<rparr>, []))))"
  "Updated (snd (fetch_entries w ents)) =
     Updated (fst (snd (fold fetch_row ents (w, \<lparr>Added = [], Updated = [], Removed = []\<rparr>, []))))"
  "Removed (snd (fetch_entries w ents)) =
     map fst (snd (snd (fold fetch_row ents (w, \<lparr>Added = [], Updated = [], Removed = []\<rparr>, []))))"
  by (simp_all add: fetch_entries_def case_prod_beta)

lemma fetch_entries_fields [simp]:
  "exitch (fst (fetch_entries w ents)) = exitch w"
  "FolderWatcher.Cursor (fst (fetch_entries w ents)) = FolderWatcher.Cursor w"
  "hasMore (fst (fetch_entries w ents)) = hasMore w"
  by (simp_all add: fetch_entries_proj)

text \<open>The same \<open>fetch\<close>, with the pair that \<open>fetch_entries\<close> returns read by projections.\<close>

lemma fetch_unfold:
  "fetch w tr rp =
     (if FolderWatcher.Cursor w = [] then fetchInitial w tr rp
      else
        (case checkResult (in_flight rp w) (exit_received rp)
                (tr @ [Sent (ListFolderContReq (FolderWatcher.Cursor w))])
                (list_result rp) (Send_err rp) of
           Stuck w' tr' \<Rightarrow> Stuck w' tr'
         | Done ok w' tr' \<Rightarrow>
             if \<not> ok then Done False w' tr'
             else if Entries (list_result rp) = [] then Done True w' tr'
             else if Added (snd (fetch_entries w' (Entries (list_result rp)))) \<noteq> [] \<or>
                     Updated (snd (fetch_entries w' (Entries (list_result rp)))) \<noteq> [] \<or>
                     Removed (snd (fetch_entries w' (Entries (list_result rp)))) \<noteq> []
             then Done True (fst (fetch_entries w' (Entries (list_result rp))))
                    (tr' @ [Changed (snd (fetch_entries w' (Entries (list_result rp))))])
             else Done True (fst (fetch_entries w' (Entries (list_result rp)))) tr'))"
  by (simp add: fetch_def Let_def case_prod_beta split: step.splits)

text \<open>When no cancellation is seen, \<open>checkCanceled\<close> changes nothing.\<close>

lemma checkCanceled_False: "\<not> fst (checkCanceled w) \<Longrightarrow> checkCanceled w = (False, w)"
  by (auto simp add: checkCanceled_def split: if_splits option.splits)

lemma checkResult_accepts:
  "\<not> fst (checkCanceled w) \<Longrightarrow>
   checkResult w rcv tr r None =
     Done True (w\<lparr>Cursor := ListFolderResult.Cursor r, hasMore := HasMore r\<rparr>) tr"
  by (simp add: checkResult_def checkCanceledAndExit_def checkCanceled_False)

lemma fetch_accepted:
  assumes "FolderWatcher.Cursor w \<noteq> []" "send_err rp = None"
    "\<not> fst (checkCanceled (in_flight rp w))"
  shows "fetch w tr rp =
    (let r = list_result rp;
         w1 = (in_flight rp w)\<lparr>Cursor := ListFolderResult.Cursor r, hasMore := HasMore r\<rparr>;
         tr1 = tr @ [Sent (ListFolderContReq (FolderWatcher.Cursor w))]
     in if Entries r = [] then Done True w1 tr1
        else (case fetch_entries w1 (Entries r) of
                (w2, changes) \<Rightarrow>
                  if Added changes \<noteq> [] \<or> Updated changes \<noteq> [] \<or> Removed changes \<noteq> []
                  then Done True w2 (tr1 @ [Changed changes]) else Done True w2 tr1))"
  using assms
  by (simp add: fetch_def Send_err_def checkResult_accepts Let_def split: prod.splits)

section \<open>The maps stay keyed by identity and by path\<close>

lemma keys_agree_maps_only:
  "EntriesById w' = EntriesById w \<Longrightarrow> EntriesByPath w' = EntriesByPath w \<Longrightarrow>
   keys_agree w' = keys_agree w"
  by (simp add: keys_agree_def)

lemma keys_agree_store_entry: "keys_agree w \<Longrightarrow> keys_agree (store_entry ent w)"
  by (simp add: keys_agree_def)

lemma keys_agree_resolve_row: "keys_agree w \<Longrightarrow> keys_agree (resolve_row p w)"
  by (simp add: keys_agree_def)

lemma keys_agree_fold_store: "keys_agree w \<Longrightarrow> keys_agree (fold store_entry ents w)"
  by (induction ents arbitrary: w) (simp_all add: keys_agree_store_entry)

lemma keys_agree_fold_resolve: "keys_agree w \<Longrightarrow> keys_agree (fold resolve_row delm w)"
  by (induction delm arbitrary: w) (simp_all add: keys_agree_resolve_row)

lemma keys_agree_fold_fetch_row:
  "keys_agree (fst st) \<Longrightarrow> keys_agree (fst (fold fetch_row ents st))"
  by (induction ents arbitrary: st) (simp_all add: fetch_row_watcher keys_agree_store_entry)

lemma keys_agree_fetch_entries: "keys_agree w \<Longrightarrow> keys_agree (fst (fetch_entries w ents))"
  by (simp add: fetch_entries_proj keys_agree_fold_resolve keys_agree_fold_fetch_row)

lemma checkResult_maps:
  "EntriesById (step_watcher (checkResult w rcv tr r err)) = EntriesById w"
  "EntriesByPath (step_watcher (checkResult w rcv tr r err)) = EntriesByPath w"
  by (auto simp add: checkResult_def checkCanceledAndExit_def checkCanceled_def send_exitch_def
           split: option.splits step.splits prod.splits bool.splits if_splits)

lemma keys_agree_checkResult:
  "keys_agree (step_watcher (checkResult (in_flight rp w) (exit_received rp) tr r err)) = keys_agree w"
  by (rule keys_agree_maps_only) (simp_all add: checkResult_maps)

lemma keys_agree_fetchInitial:
  assumes "keys_agree w"
  shows "keys_agree (step_watcher (fetchInitial w tr rp))"
proof -
  let ?c = "checkResult (in_flight rp w) (exit_received rp)
              (tr @ [Sent (ListFolderReq (Path w) (DirMode w = DirModeRecursive) False False False)])
              (list_result rp) (Send_err rp)"
  have kc: "keys_agree (step_watcher ?c)" using assms by (simp add: keys_agree_checkResult)
  show ?thesis
  proof (cases ?c)
    case (Stuck w' tr')
    then show ?thesis using kc by (simp add: fetchInitial_def Let_def)
  next
    case (Done ok w' tr')
    then have "keys_agree w'" using kc by simp
    then show ?thesis using Done
      by (simp add: fetchInitial_def Let_def keys_agree_fold_store)
  qed
qed

lemma keys_agree_fetch:
  assumes "keys_agree w"
  shows "keys_agree (step_watcher (fetch w tr rp))"
proof (cases "FolderWatcher.Cursor w = []")
  case True
  then show ?thesis using assms by (simp add: fetch_def keys_agree_fetchInitial)
next
  case False
  let ?c = "checkResult (in_flight rp w) (exit_received rp)
              (tr @ [Sent (ListFolderContReq (FolderWatcher.Cursor w))])
              (list_result rp) (Send_err rp)"
  have kc: "keys_agree (step_watcher ?c)" using assms by (simp add: keys_agree_checkResult)
  show ?thesis
  proof (cases ?c)
    case (Stuck w' tr')
    then show ?thesis using False kc by (simp add: fetch_unfold)
  next
    case (Done ok w' tr')
    then have "keys_agree w'" using kc by simp
    then show ?thesis using False Done
      by (simp add: fetch_unfold keys_agree_fetch_entries)
  qed
qed

lemma waitForChanges_maps:
  "EntriesById (outcome_watcher (waitForChanges w tr s)) = EntriesById w \<and>
   EntriesByPath (outcome_watcher (waitForChanges w tr s)) = EntriesByPath w"
proof (induction s arbitrary: w tr)
  case Nil
  show ?case by simp
next
  case (Cons rp rest)
  show ?case
    by (auto simp add: Let_def checkCanceledAndExit_def checkCanceled_def send_exitch_def Cons
        split: option.splits step.splits prod.splits bool.splits if_splits)
qed

lemma keys_agree_waitForChanges:
  "keys_agree w \<Longrightarrow> keys_agree (outcome_watcher (waitForChanges w tr s))"
  using waitForChanges_maps [of w tr s] by (simp add: keys_agree_def)

lemma keys_agree_Run_fetch:
  "keys_agree w \<Longrightarrow> keys_agree (outcome_watcher (Run_fetch w tr s))"
proof (induction s arbitrary: w tr)
  case Nil
  then show ?case by simp
next
  case (Cons rp rest)
  have "keys_agree (step_watcher (fetch w tr rp))" using Cons.prems by (rule keys_agree_fetch)
  then show ?case
    by (cases "fetch w tr rp") (simp_all add: Cons.IH)
qed

lemma keys_agree_Run: "keys_agree w \<Longrightarrow> keys_agree (outcome_watcher (Run w tr s))"
proof (induction w tr s rule: Run.induct)
  case (1 w tr s)
  have kf: "keys_agree (outcome_watcher (Run_fetch w tr s))"
    using "1.prems" by (rule keys_agree_Run_fetch)
  show ?case
  proof (cases "Run_fetch w tr s")
    case (Returns ok w' tr' rest)
    note rf = Returns
    then have kw': "keys_agree w'" using kf by simp
    show ?thesis
    proof (cases ok)
      case False
      then show ?thesis using rf kw' by (simp add: Run.simps [of w tr s])
    next
      case True
      have kp: "keys_agree (outcome_watcher (waitForChanges w' tr' rest))"
        using kw' by (rule keys_agree_waitForChanges)
      show ?thesis
      proof (cases "waitForChanges w' tr' rest")
        case (Returns ok' w'' tr'' rest')
        then have k'': "keys_agree w''" using kp by simp
        show ?thesis
        proof (cases ok')
          case False
          then show ?thesis using rf True Returns k'' by (simp add: Run.simps [of w tr s])
        next
          case ok': True
          have "keys_agree (outcome_watcher (Run w'' tr'' rest'))"
            using "1.IH" [OF rf _ Returns _ k''] True ok' by simp
          then show ?thesis using rf True Returns ok' by (simp add: Run.simps [of w tr s])
        qed
      next
        case (Parked w'' tr'')
        then show ?thesis using kp True rf by (simp add: Run.simps [of w tr s])
      next
        case (Awaiting ph w'' tr'')
        then show ?thesis using kp True rf by (simp add: Run.simps [of w tr s])
      qed
    qed
  next
    case (Parked w' tr')
    then show ?thesis using kf by (simp add: Run.simps [of w tr s])
  next
    case (Awaiting ph w' tr')
    then show ?thesis using kf by (simp add: Run.simps [of w tr s])
  qed
qed

section \<open>What a pass puts into the three buckets\<close>

lemma fetch_row_delm_distinct:
  "distinct (map fst (snd (snd st))) \<Longrightarrow> distinct (map fst (snd (snd (fetch_row ent st))))"
  by (auto simp add: fetch_row_def Let_def distinct_update distinct_delete
      split: prod.splits option.splits)

lemma fold_fetch_row_delm_distinct:
  "distinct (map fst (snd (snd st))) \<Longrightarrow>
   distinct (map fst (snd (snd (fold fetch_row ents st))))"
  by (induction ents arbitrary: st) (simp_all add: fetch_row_delm_distinct)

lemma Removed_distinct: "distinct (Removed (snd (fetch_entries w ents)))"
  by (simp add: fetch_entries_proj fold_fetch_row_delm_distinct)

text \<open>Each content row puts its identity into exactly one of \<open>Added\<close> and \<open>Updated\<close>.\<close>

lemma fetch_row_classifies:
  "mset (Added (fst (snd (fetch_row ent st)))) + mset (Updated (fst (snd (fetch_row ent st)))) =
   mset (Added (fst (snd st))) + mset (Updated (fst (snd st))) +
     (if is_content ent then {#Id' ent#} else {#})"
  by (auto simp add: fetch_row_def Let_def is_content_def split: prod.splits option.splits)

lemma fold_fetch_row_classifies:
  "mset (Added (fst (snd (fold fetch_row ents st)))) +
     mset (Updated (fst (snd (fold fetch_row ents st)))) =
   mset (Added (fst (snd st))) + mset (Updated (fst (snd st))) +
     mset (map Id' (filter is_content ents))"
  by (induction ents arbitrary: st) (simp_all add: fetch_row_classifies)

lemma fetch_entries_classifies:
  "mset (Added (snd (fetch_entries w ents)) @ Updated (snd (fetch_entries w ents))) =
   mset (map Id' (filter is_content ents))"
  by (simp add: fetch_entries_proj fold_fetch_row_classifies)

lemma Added_Updated_disjoint:
  assumes "distinct (map Id' (filter is_content ents))"
  shows "set (Added (snd (fetch_entries w ents))) \<inter> set (Updated (snd (fetch_entries w ents))) = {}"
proof -
  have "distinct (Added (snd (fetch_entries w ents)) @ Updated (snd (fetch_entries w ents)))"
    using fetch_entries_classifies [of w ents] assms by (metis mset_eq_imp_distinct_iff)
  then show ?thesis by simp
qed

text \<open>The deltas that one \<open>fetch\<close> hands to the callback.\<close>

lemma fetch_emits:
  assumes "fetch w [] rp = Done ok w' tr'" "Changed c \<in> set tr'"
  shows "(FolderWatcher.Cursor w = [] \<and>
            c = \<lparr>Added = map Id' (Entries (list_result rp)), Updated = [], Removed = []\<rparr>) \<or>
         (FolderWatcher.Cursor w \<noteq> [] \<and>
            (\<exists>w1. c = snd (fetch_entries w1 (Entries (list_result rp)))))"
proof (cases "FolderWatcher.Cursor w = []")
  case True
  then show ?thesis using assms
    by (auto simp add: fetch_def fetchInitial_def checkResult_def checkCanceledAndExit_def
        send_exitch_def Let_def
        split: if_splits step.splits option.splits prod.splits bool.splits)
next
  case False
  then show ?thesis using assms
    by (auto simp add: fetch_unfold checkResult_def checkCanceledAndExit_def
        send_exitch_def
        split: if_splits step.splits option.splits prod.splits bool.splits)
qed

text \<open>
  The store after the second loop of \<open>fetch\<close> is the same for every order in which
  the pairs of \<open>delm\<close> are visited.
\<close>

lemma resolve_row_commute:
  "resolve_row p (resolve_row q w) = resolve_row q (resolve_row p w)"
  by (cases p; cases q; cases w) (auto simp add: resolve_row_def Let_def fun_eq_iff)

lemma fetch_resolve_order:
  "mset delm = mset delm' \<Longrightarrow> fold resolve_row delm w = fold resolve_row delm' w"
proof -
  assume m: "mset delm = mset delm'"
  have "fold resolve_row delm = fold resolve_row delm'"
    by (rule fold_multiset_equiv [OF _ m]) (simp add: fun_eq_iff resolve_row_commute)
  then show ?thesis by simp
qed

section \<open>Traces: requests and exit sends\<close>

lemma exit_sends_append [simp]: "exit_sends (xs @ ys) = exit_sends xs @ exit_sends ys"
  by (induction xs rule: exit_sends.induct) simp_all

lemma requests_append [simp]: "requests (xs @ ys) = requests xs @ requests ys"
  by (induction xs rule: requests.induct) simp_all

text \<open>
  A failed \<open>Send\<close> ends the method at once: the error is offered on the exit channel.
  When the caller receives it the method returns; when nobody receives, or the channel
  is nil, the worker stays in the send.
\<close>

lemma fetch_error:
  assumes "send_err rp = Some msg"
  shows "\<exists>q. fetch w tr rp =
           (if exitch w \<noteq> None \<and> exit_received rp
            then Done False (in_flight rp w) (tr @ [Sent q, ExitSend (ForeignError msg)])
            else Stuck (in_flight rp w) (tr @ [Sent q]))"
  using assms
  by (cases "exitch w")
     (auto simp add: fetch_def fetchInitial_def checkResult_def send_exitch_def Send_err_def
      Let_def)

lemma waitForChanges_error:
  assumes "send_err rp = Some msg"
  shows "\<exists>q. waitForChanges w tr (rp # rest) =
           (if exitch w \<noteq> None \<and> exit_received rp
            then Returns False (in_flight rp w) (tr @ [Sent q, ExitSend (ForeignError msg)]) rest
            else Parked (in_flight rp w) (tr @ [Sent q]))"
  using assms by (cases "exitch w") (auto simp add: send_exitch_def Send_err_def Let_def)

lemma checkCanceledAndExit_cases:
  "checkCanceledAndExit w rcv tr = Done c w' tr' \<Longrightarrow>
     exitch w' = exitch w \<and> (if c then tr' = tr @ [ExitSend ErrCanceled] else tr' = tr)"
  by (auto simp add: checkCanceledAndExit_def checkCanceled_def send_exitch_def
      split: prod.splits bool.splits option.splits if_splits)

lemma checkResult_True:
  "checkResult w rcv tr r err = Done True w' tr' \<Longrightarrow> tr' = tr \<and> exitch w' = exitch w"
  by (auto simp add: checkResult_def split: option.splits step.splits if_splits
      dest!: checkCanceledAndExit_cases)

lemma fetch_True:
  assumes "fetch w tr rp = Done True w' tr'"
  shows "exit_sends tr' = exit_sends tr \<and>
         length (requests tr') = Suc (length (requests tr)) \<and>
         exitch w' = exitch w"
proof (cases "FolderWatcher.Cursor w = []")
  case True
  then show ?thesis using assms
    by (auto simp add: fetch_def fetchInitial_def Let_def split: step.splits if_splits
        dest!: checkResult_True)
next
  case False
  then show ?thesis using assms
    by (auto simp add: fetch_unfold split: step.splits if_splits dest!: checkResult_True)
qed

text \<open>
  A loop that has used up its script goes on with a longer script from where it waits;
  a loop that has returned is not changed by replies that come later.
\<close>

lemma Run_fetch_Awaiting:
  "Run_fetch w tr s = Awaiting ph w' tr' \<Longrightarrow>
     ph = Fetching \<and> exit_sends tr' = exit_sends tr \<and>
     length (requests tr') = length (requests tr) + length s \<and> exitch w' = exitch w \<and>
     Run_fetch w tr (s @ ext) = Run_fetch w' tr' ext"
proof (induction s arbitrary: w tr)
  case Nil
  then show ?case by simp
next
  case (Cons rp rest)
  show ?case
  proof (cases "fetch w tr rp")
    case (Stuck w1 tr1)
    then show ?thesis using Cons.prems by simp
  next
    case (Done ok w1 tr1)
    then have ok: "ok" and hm: "hasMore w1"
      and rf: "Run_fetch w1 tr1 rest = Awaiting ph w' tr'"
      using Cons.prems by (auto split: if_splits)
    from Done ok have ft: "exit_sends tr1 = exit_sends tr"
      "length (requests tr1) = Suc (length (requests tr))" "exitch w1 = exitch w"
      using fetch_True [of w tr rp w1 tr1] by simp_all
    show ?thesis using Cons.IH [OF rf] Done ok hm ft by simp
  qed
qed

lemma Run_fetch_Returns:
  "Run_fetch w tr s = Returns ok w' tr' rest \<Longrightarrow>
     Run_fetch w tr (s @ ext) = Returns ok w' tr' (rest @ ext) \<and>
     (ok \<longrightarrow> exit_sends tr' = exit_sends tr \<and>
       length (requests tr') + length rest = length (requests tr) + length s \<and>
       exitch w' = exitch w)"
proof (induction s arbitrary: w tr)
  case Nil
  then show ?case by simp
next
  case (Cons rp rest0)
  show ?case
  proof (cases "fetch w tr rp")
    case (Stuck w1 tr1)
    then show ?thesis using Cons.prems by simp
  next
    case (Done ok1 w1 tr1)
    show ?thesis
    proof (cases ok1)
      case False
      then show ?thesis using Cons.prems Done by auto
    next
      case True
      from Done True have ft: "exit_sends tr1 = exit_sends tr"
        "length (requests tr1) = Suc (length (requests tr))" "exitch w1 = exitch w"
        using fetch_True [of w tr rp w1 tr1] by simp_all
      show ?thesis
      proof (cases "hasMore w1")
        case False
        then show ?thesis using Cons.prems Done True ft by auto
      next
        case hm: True
        then have rf: "Run_fetch w1 tr1 rest0 = Returns ok w' tr' rest"
          using Cons.prems Done True by simp
        show ?thesis using Cons.IH [OF rf] Done True hm ft by simp
      qed
    qed
  qed
qed

lemma waitForChanges_Awaiting:
  "waitForChanges w tr s = Awaiting ph w' tr' \<Longrightarrow>
     ph = LongPolling \<and> exit_sends tr' = exit_sends tr \<and>
     length (requests tr') = length (requests tr) + length s \<and> exitch w' = exitch w \<and>
     waitForChanges w tr (s @ ext) = waitForChanges w' tr' ext"
proof (induction s arbitrary: w tr)
  case Nil
  then show ?case by simp
next
  case (Cons rp rest)
  let ?tr1 = "tr @ [Sent (ListFolderLongpollReq (FolderWatcher.Cursor w) 30)]"
  from Cons.prems obtain w2 tr2 where
    se: "Send_err rp = None" and
    cc: "checkCanceledAndExit (in_flight rp w) (exit_received rp) ?tr1 = Done False w2 tr2" and
    nc: "\<not> Changes (poll_result rp)" and
    rec: "waitForChanges w2
            (if 0 < Backoff (poll_result rp)
             then tr2 @ [Slept (sleep_arg (Backoff (poll_result rp)))] else tr2)
            rest = Awaiting ph w' tr'"
    by (auto simp add: Let_def split: option.splits step.splits if_splits)
  from checkCanceledAndExit_cases [OF cc] have c2: "tr2 = ?tr1" "exitch w2 = exitch w"
    by simp_all
  show ?case using Cons.IH [OF rec] se cc nc c2
    by (cases "0 < Backoff (poll_result rp)") (simp_all add: Let_def)
qed

lemma waitForChanges_Returns:
  "waitForChanges w tr s = Returns ok w' tr' rest \<Longrightarrow>
     waitForChanges w tr (s @ ext) = Returns ok w' tr' (rest @ ext) \<and>
     (ok \<longrightarrow> exit_sends tr' = exit_sends tr \<and>
       length (requests tr') + length rest = length (requests tr) + length s \<and>
       exitch w' = exitch w)"
proof (induction s arbitrary: w tr)
  case Nil
  then show ?case by simp
next
  case (Cons rp rest0)
  let ?tr1 = "tr @ [Sent (ListFolderLongpollReq (FolderWatcher.Cursor w) 30)]"
  show ?case
  proof (cases "Send_err rp")
    case (Some e)
    then show ?thesis using Cons.prems
      by (auto simp add: Let_def split: option.splits)
  next
    case None
    from None Cons.prems obtain c w2 tr2 where
      cc: "checkCanceledAndExit (in_flight rp w) (exit_received rp) ?tr1 = Done c w2 tr2"
      by (auto simp add: Let_def split: step.splits)
    note c2 = checkCanceledAndExit_cases [OF cc]
    show ?thesis
    proof (cases c)
      case True
      then show ?thesis using Cons.prems None cc by (auto simp add: Let_def)
    next
      case False
      let ?tr3 = "if 0 < Backoff (poll_result rp)
                  then tr2 @ [Slept (sleep_arg (Backoff (poll_result rp)))] else tr2"
      show ?thesis
      proof (cases "Changes (poll_result rp)")
        case True
        then show ?thesis using Cons.prems None cc False c2 by (auto simp add: Let_def)
      next
        case nch: False
        then have rec: "waitForChanges w2 ?tr3 rest0 = Returns ok w' tr' rest"
          using Cons.prems None cc False by (simp add: Let_def)
        show ?thesis using Cons.IH [OF rec] None cc False nch c2
          by (cases "0 < Backoff (poll_result rp)") (simp_all add: Let_def)
      qed
    qed
  qed
qed

text \<open>
  While \<open>Run\<close> waits for a reply it has sent nothing on the exit channel and has made
  one request for each reply taken. If the reply it waits for is a failure, \<open>Run\<close>
  makes no further request, whatever replies the script holds after it: it offers the
  error on the exit channel, and returns when the caller receives it; with no receiver,
  or a nil channel, it stays in the send.
\<close>

lemma Run_Awaiting:
  "Run w tr s = Awaiting ph w' tr' \<Longrightarrow>
     exit_sends tr' = exit_sends tr \<and>
     length (requests tr') = length (requests tr) + length s \<and>
     exitch w' = exitch w \<and>
     (send_err rp = Some msg \<longrightarrow>
        (\<exists>q. Run w tr (s @ rp # rest) =
               (if exitch w \<noteq> None \<and> exit_received rp
                then Returns () (in_flight rp w')
                       (tr' @ [Sent q, ExitSend (ForeignError msg)]) rest
                else Parked (in_flight rp w') (tr' @ [Sent q]))))"
proof (induction w tr s rule: Run.induct)
  case (1 w tr s)
  note run = "1.prems"
  let ?out = "\<lambda>x q. if x \<noteq> None \<and> exit_received rp
                then Returns () (in_flight rp w')
                       (tr' @ [Sent q, ExitSend (ForeignError msg)]) rest
                else Parked (in_flight rp w') (tr' @ [Sent q])"
  show ?case
  proof (cases "Run_fetch w tr s")
    case (Parked w1 tr1)
    then show ?thesis using run by (simp add: Run.simps [of w tr s])
  next
    case (Awaiting ph1 w1 tr1)
    then have eq: "ph1 = ph" "w1 = w'" "tr1 = tr'"
      using run by (simp_all add: Run.simps [of w tr s])
    note fa = Run_fetch_Awaiting [OF Awaiting [unfolded eq], of "rp # rest"]
    have "\<exists>q. Run w tr (s @ rp # rest) = ?out (exitch w) q"
      if e: "send_err rp = Some msg"
    proof -
      from fa have x: "exitch w' = exitch w" by simp
      from fetch_error [OF e, of w' tr'] obtain q where
        f: "fetch w' tr' rp =
           (if exitch w' \<noteq> None \<and> exit_received rp
            then Done False (in_flight rp w') (tr' @ [Sent q, ExitSend (ForeignError msg)])
            else Stuck (in_flight rp w') (tr' @ [Sent q]))"
        by blast
      have "Run_fetch w tr (s @ rp # rest) =
          (if exitch w \<noteq> None \<and> exit_received rp
           then Returns False (in_flight rp w')
                  (tr' @ [Sent q, ExitSend (ForeignError msg)]) rest
           else Parked (in_flight rp w') (tr' @ [Sent q]))"
        using fa f x by simp
      then have "Run w tr (s @ rp # rest) = ?out (exitch w) q"
        by (simp add: Run.simps [of w tr "s @ rp # rest"])
      then show ?thesis by blast
    qed
    then show ?thesis using fa by simp
  next
    case (Returns ok w1 tr1 rest1)
    note rf = Returns
    have ok: "ok" using run rf by (cases ok) (simp_all add: Run.simps [of w tr s])
    note fr = Run_fetch_Returns [OF rf, of "rp # rest"]
    show ?thesis
    proof (cases "waitForChanges w1 tr1 rest1")
      case (Parked w2 tr2)
      then show ?thesis using run rf ok by (simp add: Run.simps [of w tr s])
    next
      case (Awaiting ph2 w2 tr2)
      then have eq: "ph2 = ph" "w2 = w'" "tr2 = tr'"
        using run rf ok by (simp_all add: Run.simps [of w tr s])
      note wa = waitForChanges_Awaiting [OF Awaiting [unfolded eq], of "rp # rest"]
      have "\<exists>q. Run w tr (s @ rp # rest) = ?out (exitch w) q"
        if e: "send_err rp = Some msg"
      proof -
        from fr ok wa have x: "exitch w' = exitch w" by simp
        from waitForChanges_error [OF e, of w' tr' rest] obtain q where
          f: "waitForChanges w' tr' (rp # rest) =
             (if exitch w' \<noteq> None \<and> exit_received rp
              then Returns False (in_flight rp w')
                     (tr' @ [Sent q, ExitSend (ForeignError msg)]) rest
              else Parked (in_flight rp w') (tr' @ [Sent q]))"
          by blast
        have "waitForChanges w1 tr1 (rest1 @ rp # rest) =
             (if exitch w \<noteq> None \<and> exit_received rp
              then Returns False (in_flight rp w')
                     (tr' @ [Sent q, ExitSend (ForeignError msg)]) rest
              else Parked (in_flight rp w') (tr' @ [Sent q]))"
          using wa f x by simp
        then have "Run w tr (s @ rp # rest) = ?out (exitch w) q"
          using fr ok by (simp add: Run.simps [of w tr "s @ rp # rest"])
        then show ?thesis by blast
      qed
      then show ?thesis using fr ok wa by simp
    next
      case (Returns ok' w2 tr2 rest2)
      note wr = Returns
      have ok': "ok'" using run rf ok wr by (cases ok') (simp_all add: Run.simps [of w tr s])
      have run2: "Run w2 tr2 rest2 = Awaiting ph w' tr'"
        using run rf ok wr ok' by (simp add: Run.simps [of w tr s])
      note wr' = waitForChanges_Returns [OF wr, of "rp # rest"]
      have ih: "exit_sends tr' = exit_sends tr2 \<and>
         length (requests tr') = length (requests tr2) + length rest2 \<and>
         exitch w' = exitch w2 \<and>
         (send_err rp = Some msg \<longrightarrow>
            (\<exists>q. Run w2 tr2 (rest2 @ rp # rest) = ?out (exitch w2) q))"
        using "1.IH" [OF rf _ wr _ run2] ok ok' by simp
      have ext: "Run w tr (s @ rp # rest) = Run w2 tr2 (rest2 @ rp # rest)"
        using fr wr' ok ok' by (simp add: Run.simps [of w tr "s @ rp # rest"])
      have x: "exitch w2 = exitch w" using fr wr' ok ok' by simp
      show ?thesis using ih fr wr' ok ok' ext x by auto
    qed
  qed
qed

section \<open>The constructor\<close>

text \<open>
  C10. \<open>NewFolderWatcher\<close> returns nil exactly when the client pointer is nil. For a
  client that is not nil it returns a watcher with the empty cursor, so that the first
  \<open>fetch\<close> is the initial full listing, with both maps empty, and with the exit channel
  made (an unbuffered channel, which \<open>Exit\<close> names too). The cancel channel is made
  with room for one value, and the client, the path and the mode are the ones given.
\<close>

theorem NewFolderWatcher_nil_iff_and_fresh:
  "(NewFolderWatcher client path m = None) = (client = None) \<and>
   (\<exists>w. NewFolderWatcher (Some c) path m = Some w \<and>
        FolderWatcher.Cursor w = '''' \<and>
        EntriesById w = Map.empty \<and> EntriesByPath w = Map.empty \<and>
        exitch w = Some \<lparr>chan_cap = 0, chan_len = 0\<rparr> \<and> Exit w = exitch w \<and>
        cancelch w = Some \<lparr>chan_cap = 1, chan_len = 0\<rparr> \<and> \<not> canceled w \<and>
        \<not> hasMore w \<and> Client w = c \<and> Path w = path \<and> DirMode w = m \<and>
        (\<forall>tr rp. fetch w tr rp = fetchInitial w tr rp))"
  by (simp add: NewFolderWatcher_def fetch_def Let_def split: option.splits)

section \<open>Rename with displacement\<close>

text \<open>
  C3, as the code has it. The store holds exactly two entries, \<open>A\<close> at one path and
  \<open>B\<close> at another, and the batch is the single content row \<open>E\<close> that carries the
  identity of \<open>B\<close> and the path of \<open>A\<close>. The pass reports the identity of \<open>B\<close> as
  Updated and the identity of \<open>A\<close> as Removed, and nothing as Added. Afterwards the
  identity map holds exactly \<open>E\<close>, and the path map holds \<open>E\<close> at the path of \<open>A\<close>;
  \<open>A\<close> is in neither map. The old path of \<open>B\<close> is not vacated: it still holds \<open>B\<close>.
\<close>

theorem fetch_displaces_occupant:
  assumes "FolderWatcher.Cursor w \<noteq> []" and "send_err rp = None"
    and "\<not> fst (checkCanceled (in_flight rp w))"
    and "EntriesById w = [Id' A \<mapsto> A, Id' B \<mapsto> B]"
    and "EntriesByPath w = [PathLower A \<mapsto> A, PathLower B \<mapsto> B]"
    and "Id' A \<noteq> Id' B" and "PathLower A \<noteq> PathLower B"
    and "Entries (list_result rp) = [E]" and "is_content E"
    and "Id' E = Id' B" and "PathLower E = PathLower A"
  shows "\<exists>w'. fetch w tr rp =
            Done True w'
              (tr @ [Sent (ListFolderContReq (FolderWatcher.Cursor w)),
                     Changed \<lparr>Added = [], Updated = [Id' B], Removed = [Id' A]\<rparr>]) \<and>
          EntriesById w' = [Id' B \<mapsto> E] \<and>
          EntriesByPath w' = [PathLower A \<mapsto> E, PathLower B \<mapsto> B]"
  using assms
  by (auto simp add: fetch_accepted fetch_entries_def fetch_row_def resolve_row_def
      store_entry_def is_content_def Let_def fun_upd_twist)

text \<open>The theorem at the store \<open>{id1 at /x, id2 at /y}\<close> and the row \<open>id2 at /x\<close>.\<close>

theorem fetch_displaces_occupant_witness:
  "\<exists>w'. fetch (ex_tracking [ex_A, ex_B]) []
            (ex_listing [ex_entry ''file'' ''id2'' ''/x''] ''c1'' False) =
          Done True w'
            [Sent (ListFolderContReq ''c0''),
             Changed \<lparr>Added = [], Updated = [''id2''], Removed = [''id1'']\<rparr>] \<and>
        EntriesById w' = [''id2'' \<mapsto> ex_entry ''file'' ''id2'' ''/x''] \<and>
        EntriesByPath w' = [''/x'' \<mapsto> ex_entry ''file'' ''id2'' ''/x'', ''/y'' \<mapsto> ex_B]"
proof -
  let ?w = "ex_tracking [ex_A, ex_B]"
  let ?rp = "ex_listing [ex_entry ''file'' ''id2'' ''/x''] ''c1'' False"
  have h1: "FolderWatcher.Cursor ?w \<noteq> []" by (simp add: ex_defs)
  have h2: "send_err ?rp = None" by (simp add: ex_defs)
  have h3: "\<not> fst (checkCanceled (in_flight ?rp ?w))"
    by (simp add: ex_defs in_flight_def checkCanceled_def store_entry_def)
  have h4: "EntriesById ?w = [Id' ex_A \<mapsto> ex_A, Id' ex_B \<mapsto> ex_B]" by (simp add: ex_defs)
  have h5: "EntriesByPath ?w = [PathLower ex_A \<mapsto> ex_A, PathLower ex_B \<mapsto> ex_B]"
    by (simp add: ex_defs)
  have h6: "Id' ex_A \<noteq> Id' ex_B" by (simp add: ex_defs)
  have h7: "PathLower ex_A \<noteq> PathLower ex_B" by (simp add: ex_defs)
  have h8: "Entries (list_result ?rp) = [ex_entry ''file'' ''id2'' ''/x'']"
    by (simp add: ex_defs)
  have h9: "is_content (ex_entry ''file'' ''id2'' ''/x'')" by (simp add: ex_defs is_content_def)
  have h10: "Id' (ex_entry ''file'' ''id2'' ''/x'') = Id' ex_B" by (simp add: ex_defs)
  have h11: "PathLower (ex_entry ''file'' ''id2'' ''/x'') = PathLower ex_A"
    by (simp add: ex_defs)
  have c: "FolderWatcher.Cursor ?w = ''c0''" by (simp add: ex_defs)
  have i: "Id' ex_A = ''id1''" "Id' ex_B = ''id2''"
    "PathLower ex_A = ''/x''" "PathLower ex_B = ''/y''"
    by (simp_all add: ex_defs)
  show ?thesis
    using fetch_displaces_occupant [OF h1 h2 h3 h4 h5 h6 h7 h8 h9 h10 h11, of "[]"]
    by (simp add: c i)
qed

text \<open>
  The claim as the spec words it asks for the slot \<open>/y\<close> to be vacated. At its own
  input the slot still holds the old entry of \<open>id2\<close>.
\<close>

theorem fetch_displaces_occupant_slot_kept:
  "EntriesById (ex_tracking [ex_A, ex_B]) = [''id1'' \<mapsto> ex_A, ''id2'' \<mapsto> ex_B] \<and>
   EntriesByPath (ex_tracking [ex_A, ex_B]) = [''/x'' \<mapsto> ex_A, ''/y'' \<mapsto> ex_B] \<and>
   EntriesByPath (step_watcher (fetch (ex_tracking [ex_A, ex_B]) []
       (ex_listing [ex_entry ''file'' ''id2'' ''/x''] ''c1'' False))) ''/y'' = Some ex_B"
  by (simp add: run_defs ex_defs)

section \<open>Delete followed by add\<close>

lemma delete_keys: "k \<notin> fst ` set (AList.delete k al)"
  by (induction al) auto

text \<open>
  The coalescing that works. A content row that lands on a path slot holding an entry
  with its own identity takes back the pending deletion of that identity: after the row
  the identity is not a key of \<open>delm\<close>, and the row is filed under Updated. So when the
  store holds exactly one entry \<open>A\<close> and the batch is a tombstone for its path followed
  by a content row \<open>E\<close> with the identity and the path of \<open>A\<close>, the delta is exactly
  \<open>{Updated: [id]}\<close>, nothing is Removed, and both maps hold exactly \<open>E\<close>.
\<close>

lemma fetch_row_retracts_in_place:
  assumes "is_content ent" and "EntriesByPath v (PathLower ent) = Some prev"
    and "Id' prev = Id' ent"
  shows "Id' ent \<notin> fst ` set (snd (snd (fetch_row ent (v, changes, delm))))"
    and "Updated (fst (snd (fetch_row ent (v, changes, delm)))) = Updated changes @ [Id' ent]"
    and "Added (fst (snd (fetch_row ent (v, changes, delm)))) = Added changes"
  using assms by (simp_all add: fetch_row_def is_content_def Let_def delete_keys)

lemma fetch_delete_then_add_in_place:
  assumes "FolderWatcher.Cursor w \<noteq> []" and "send_err rp = None"
    and "\<not> fst (checkCanceled (in_flight rp w))"
    and "EntriesById w = [Id' A \<mapsto> A]" and "EntriesByPath w = [PathLower A \<mapsto> A]"
    and "Entries (list_result rp) = [T, E]"
    and "\<not> is_content T" and "PathLower T = PathLower A"
    and "is_content E" and "Id' E = Id' A" and "PathLower E = PathLower A"
  shows "\<exists>w'. fetch w tr rp =
              Done True w'
                (tr @ [Sent (ListFolderContReq (FolderWatcher.Cursor w)),
                       Changed \<lparr>Added = [], Updated = [Id' A], Removed = []\<rparr>]) \<and>
            EntriesById w' = [Id' A \<mapsto> E] \<and>
            EntriesByPath w' = [PathLower A \<mapsto> E]"
  using assms
  by (auto simp add: fetch_accepted fetch_entries_def fetch_row_def resolve_row_def
      store_entry_def is_content_def Let_def fun_upd_twist)

text \<open>
  C1. The claim: with the store holding exactly one entry, \<open>id1\<close> at \<open>/x\<close>, the
  incremental batch \<open>[tombstone /x, content id1 at /y]\<close> is coalesced, the pending
  deletion of \<open>id1\<close> is taken back, the delta is \<open>{Updated: [id1]}\<close> with nothing
  Removed, and the store holds \<open>id1\<close> at \<open>/y\<close>.

  The code at this input: the content row finds the slot \<open>/y\<close> empty, so it is filed
  under Added, and on that branch the \<open>delete(delm, ent.Id)\<close> that would take the
  pending deletion back stands behind \<open>if prevEntAtPath != nil\<close>, which is never true
  there. The deletion stays pending: the delta is \<open>{Added: [id1], Removed: [id1]}\<close>,
  the second loop deletes \<open>id1\<close> from the identity map, which ends empty, while the path
  map holds the new row at \<open>/y\<close>. The same tombstone followed by the row at \<open>/x\<close>
  itself, on the sibling branch, is coalesced to \<open>{Updated: [id1]}\<close>.
\<close>

theorem fetch_delete_then_add_reports_removed:
  "EntriesById (ex_tracking [ex_A]) = [''id1'' \<mapsto> ex_A] \<and>
   EntriesByPath (ex_tracking [ex_A]) = [''/x'' \<mapsto> ex_A] \<and>
   step_trace (fetch (ex_tracking [ex_A]) []
       (ex_listing [ex_T, ex_entry ''file'' ''id1'' ''/y''] ''c1'' False)) =
     [Sent (ListFolderContReq ''c0''),
      Changed \<lparr>Added = [''id1''], Updated = [], Removed = [''id1'']\<rparr>] \<and>
   EntriesById (step_watcher (fetch (ex_tracking [ex_A]) []
       (ex_listing [ex_T, ex_entry ''file'' ''id1'' ''/y''] ''c1'' False))) = Map.empty \<and>
   EntriesByPath (step_watcher (fetch (ex_tracking [ex_A]) []
       (ex_listing [ex_T, ex_entry ''file'' ''id1'' ''/y''] ''c1'' False))) =
     [''/y'' \<mapsto> ex_entry ''file'' ''id1'' ''/y''] \<and>
   step_trace (fetch (ex_tracking [ex_A]) [] (ex_listing [ex_T, ex_A] ''c1'' False)) =
     [Sent (ListFolderContReq ''c0''),
      Changed \<lparr>Added = [], Updated = [''id1''], Removed = []\<rparr>]"
  by (simp add: run_defs ex_defs fun_eq_iff)

section \<open>The three buckets of a delta\<close>

text \<open>
  C4, as the code has it. In every delta that a \<open>fetch\<close> hands to the callback, Removed
  names no identity twice; and when the content rows of the batch carry pairwise distinct
  identities, Added and Updated share no identity. Removed can share an identity with
  Added or with Updated.
\<close>

theorem fetch_delta_buckets:
  assumes "fetch w [] rp = Done ok w' tr'" and "Changed c \<in> set tr'"
  shows "distinct (Removed c) \<and>
         (distinct (map Id' (filter is_content (Entries (list_result rp)))) \<longrightarrow>
            set (Added c) \<inter> set (Updated c) = {})"
proof -
  from fetch_emits [OF assms] consider
      (initial) "c = \<lparr>Added = map Id' (Entries (list_result rp)), Updated = [], Removed = []\<rparr>"
    | (incremental) w1 where "c = snd (fetch_entries w1 (Entries (list_result rp)))"
    by blast
  then show ?thesis
  proof cases
    case initial
    then show ?thesis by simp
  next
    case incremental
    then show ?thesis
      using Removed_distinct [of w1 "Entries (list_result rp)"]
        Added_Updated_disjoint [of "Entries (list_result rp)" w1]
      by simp
  qed
qed

text \<open>
  The theorem at the store \<open>{id1 at /x, id2 at /y}\<close> and the batch
  \<open>[tombstone /y, content id3 at /z, content id1 at /x]\<close>.
\<close>

theorem fetch_delta_buckets_witness:
  "fetch (ex_tracking [ex_A, ex_B]) []
     (ex_listing [ex_entry ''deleted'' [] ''/y'', ex_entry ''file'' ''id3'' ''/z'', ex_A]
        ''c1'' False) =
     Done True
       (step_watcher (fetch (ex_tracking [ex_A, ex_B]) []
          (ex_listing [ex_entry ''deleted'' [] ''/y'', ex_entry ''file'' ''id3'' ''/z'', ex_A]
             ''c1'' False)))
       [Sent (ListFolderContReq ''c0''),
        Changed \<lparr>Added = [''id3''], Updated = [''id1''], Removed = [''id2'']\<rparr>] \<and>
   distinct (map Id' (filter is_content
     [ex_entry ''deleted'' [] ''/y'', ex_entry ''file'' ''id3'' ''/z'', ex_A])) \<and>
   distinct (Removed \<lparr>Added = [''id3''], Updated = [''id1''], Removed = [''id2'']\<rparr>) \<and>
   set (Added \<lparr>Added = [''id3''], Updated = [''id1''], Removed = [''id2'']\<rparr>) \<inter>
     set (Updated \<lparr>Added = [''id3''], Updated = [''id1''], Removed = [''id2'']\<rparr>) = {}"
proof -
  let ?w = "ex_tracking [ex_A, ex_B]"
  let ?rp = "ex_listing [ex_entry ''deleted'' [] ''/y'', ex_entry ''file'' ''id3'' ''/z'', ex_A]
               ''c1'' False"
  let ?c = "\<lparr>Added = [''id3''], Updated = [''id1''], Removed = [''id2'']\<rparr>"
  have f: "fetch ?w [] ?rp =
      Done True (step_watcher (fetch ?w [] ?rp)) [Sent (ListFolderContReq ''c0''), Changed ?c]"
    by (simp add: run_defs ex_defs)
  have m: "Changed ?c \<in> set [Sent (ListFolderContReq ''c0''), Changed ?c]" by simp
  have d: "distinct (map Id' (filter is_content (Entries (list_result ?rp))))"
    by (simp add: ex_defs is_content_def)
  show ?thesis using fetch_delta_buckets [OF f m] f d by (simp add: ex_defs)
qed

text \<open>
  Three deltas with an identity in two buckets: a row that updates \<open>id1\<close> in place
  followed by a tombstone for its path gives Updated and Removed; the same content row
  twice on an empty store gives Added and Updated; a new row displaced by another new
  row at the same path gives Added and Removed.
\<close>

theorem fetch_delta_buckets_overlap:
  "step_trace (fetch (ex_tracking [ex_A]) [] (ex_listing [ex_A, ex_T] ''c1'' False)) =
     [Sent (ListFolderContReq ''c0''),
      Changed \<lparr>Added = [], Updated = [''id1''], Removed = [''id1'']\<rparr>] \<and>
   step_trace (fetch (ex_tracking []) [] (ex_listing [ex_A, ex_A] ''c1'' False)) =
     [Sent (ListFolderContReq ''c0''),
      Changed \<lparr>Added = [''id1''], Updated = [''id1''], Removed = []\<rparr>] \<and>
   step_trace (fetch (ex_tracking []) []
       (ex_listing [ex_entry ''file'' ''id3'' ''/z'', ex_entry ''file'' ''id4'' ''/z'']
          ''c1'' False)) =
     [Sent (ListFolderContReq ''c0''),
      Changed \<lparr>Added = [''id3''], Updated = [''id4''], Removed = [''id3'']\<rparr>]"
  by (simp add: run_defs ex_defs)

section \<open>Which rows reach the store\<close>

lemma fold_store_entry_new_id:
  "EntriesById (fold store_entry ents w) k = Some e \<Longrightarrow>
     EntriesById w k = Some e \<or> e \<in> set ents"
proof (induction ents arbitrary: w)
  case Nil
  then show ?case by simp
next
  case (Cons a ents)
  from Cons.prems have "EntriesById (fold store_entry ents (store_entry a w)) k = Some e"
    by simp
  then have "EntriesById (store_entry a w) k = Some e \<or> e \<in> set ents" by (rule Cons.IH)
  then show ?case by (auto split: if_splits)
qed

lemma fold_store_entry_new_path:
  "EntriesByPath (fold store_entry ents w) k = Some e \<Longrightarrow>
     EntriesByPath w k = Some e \<or> e \<in> set ents"
proof (induction ents arbitrary: w)
  case Nil
  then show ?case by simp
next
  case (Cons a ents)
  from Cons.prems have "EntriesByPath (fold store_entry ents (store_entry a w)) k = Some e"
    by simp
  then have "EntriesByPath (store_entry a w) k = Some e \<or> e \<in> set ents" by (rule Cons.IH)
  then show ?case by (auto split: if_splits)
qed

lemma fold_fetch_row_new_id:
  "EntriesById (fst (fold fetch_row ents st)) k = Some e \<Longrightarrow>
     EntriesById (fst st) k = Some e \<or> (e \<in> set ents \<and> is_content e)"
proof (induction ents arbitrary: st)
  case Nil
  then show ?case by simp
next
  case (Cons a ents)
  from Cons.prems have "EntriesById (fst (fold fetch_row ents (fetch_row a st))) k = Some e"
    by simp
  then have "EntriesById (fst (fetch_row a st)) k = Some e \<or> (e \<in> set ents \<and> is_content e)"
    by (rule Cons.IH)
  then show ?case by (auto simp add: fetch_row_watcher is_content_def split: if_splits)
qed

lemma fold_fetch_row_new_path:
  "EntriesByPath (fst (fold fetch_row ents st)) k = Some e \<Longrightarrow>
     EntriesByPath (fst st) k = Some e \<or> (e \<in> set ents \<and> is_content e)"
proof (induction ents arbitrary: st)
  case Nil
  then show ?case by simp
next
  case (Cons a ents)
  from Cons.prems have "EntriesByPath (fst (fold fetch_row ents (fetch_row a st))) k = Some e"
    by simp
  then have "EntriesByPath (fst (fetch_row a st)) k = Some e \<or> (e \<in> set ents \<and> is_content e)"
    by (rule Cons.IH)
  then show ?case by (auto simp add: fetch_row_watcher is_content_def split: if_splits)
qed

lemma fold_resolve_row_old_id:
  "EntriesById (fold resolve_row delm w) k = Some e \<Longrightarrow> EntriesById w k = Some e"
proof (induction delm arbitrary: w)
  case Nil
  then show ?case by simp
next
  case (Cons p delm)
  from Cons.prems have "EntriesById (fold resolve_row delm (resolve_row p w)) k = Some e"
    by simp
  then have "EntriesById (resolve_row p w) k = Some e" by (rule Cons.IH)
  then show ?case by (simp split: if_splits)
qed

lemma fold_resolve_row_old_path:
  "EntriesByPath (fold resolve_row delm w) k = Some e \<Longrightarrow> EntriesByPath w k = Some e"
proof (induction delm arbitrary: w)
  case Nil
  then show ?case by simp
next
  case (Cons p delm)
  from Cons.prems have "EntriesByPath (fold resolve_row delm (resolve_row p w)) k = Some e"
    by simp
  then have "EntriesByPath (resolve_row p w) k = Some e" by (rule Cons.IH)
  then show ?case by (simp split: if_splits)
qed

lemma fetch_entries_new_id:
  "EntriesById (fst (fetch_entries w ents)) k = Some e \<Longrightarrow>
     EntriesById w k = Some e \<or> (e \<in> set ents \<and> is_content e)"
  using fold_fetch_row_new_id [of ents "(w, \<lparr>Added = [], Updated = [], Removed = []\<rparr>, [])" k e]
  by (auto simp add: fetch_entries_proj dest!: fold_resolve_row_old_id)

lemma fetch_entries_new_path:
  "EntriesByPath (fst (fetch_entries w ents)) k = Some e \<Longrightarrow>
     EntriesByPath w k = Some e \<or> (e \<in> set ents \<and> is_content e)"
  using fold_fetch_row_new_path [of ents "(w, \<lparr>Added = [], Updated = [], Removed = []\<rparr>, [])" k e]
  by (auto simp add: fetch_entries_proj dest!: fold_resolve_row_old_path)

lemma fetch_new_rows:
  "(EntriesById (step_watcher (fetch w tr rp)) k = Some e \<longrightarrow>
      EntriesById w k = Some e \<or>
      (e \<in> set (Entries (list_result rp)) \<and>
       (FolderWatcher.Cursor w \<noteq> [] \<longrightarrow> is_content e))) \<and>
   (EntriesByPath (step_watcher (fetch w tr rp)) k = Some e \<longrightarrow>
      EntriesByPath w k = Some e \<or>
      (e \<in> set (Entries (list_result rp)) \<and>
       (FolderWatcher.Cursor w \<noteq> [] \<longrightarrow> is_content e)))"
proof (cases "FolderWatcher.Cursor w = []")
  case True
  let ?c = "checkResult (in_flight rp w) (exit_received rp)
              (tr @ [Sent (ListFolderReq (Path w) (DirMode w = DirModeRecursive)
                             False False False)])
              (list_result rp) (Send_err rp)"
  have m: "EntriesById (step_watcher ?c) = EntriesById w"
    "EntriesByPath (step_watcher ?c) = EntriesByPath w"
    by (simp_all add: checkResult_maps)
  show ?thesis
  proof (cases ?c)
    case (Stuck w' tr')
    then show ?thesis using True m by (simp add: fetch_def fetchInitial_def Let_def)
  next
    case (Done ok w' tr')
    then show ?thesis using True m
      by (auto simp add: fetch_def fetchInitial_def Let_def
          dest: fold_store_entry_new_id fold_store_entry_new_path)
  qed
next
  case False
  let ?c = "checkResult (in_flight rp w) (exit_received rp)
              (tr @ [Sent (ListFolderContReq (FolderWatcher.Cursor w))])
              (list_result rp) (Send_err rp)"
  have m: "EntriesById (step_watcher ?c) = EntriesById w"
    "EntriesByPath (step_watcher ?c) = EntriesByPath w"
    by (simp_all add: checkResult_maps)
  show ?thesis
  proof (cases ?c)
    case (Stuck w' tr')
    then show ?thesis using False m by (simp add: fetch_unfold)
  next
    case (Done ok w' tr')
    then show ?thesis using False m
      by (auto simp add: fetch_unfold dest: fetch_entries_new_id fetch_entries_new_path)
  qed
qed

text \<open>
  C6, as the code has it. After a \<open>fetch\<close>, an entry found in a map under a key was
  there under that key before, or is a row of the reply. For an incremental listing
  (the cursor is not empty) such a new entry is a content row: no tombstone row is
  stored, and a batch of tombstones alone can only take entries out of the maps. The
  initial listing stores every row of its reply, whatever its tag.
\<close>

theorem fetch_stores_rows:
  "(EntriesById (step_watcher (fetch w tr rp)) k = Some e \<longrightarrow>
      EntriesById w k = Some e \<or>
      (e \<in> set (Entries (list_result rp)) \<and>
       (FolderWatcher.Cursor w \<noteq> [] \<longrightarrow> is_content e))) \<and>
   (EntriesByPath (step_watcher (fetch w tr rp)) p = Some e \<longrightarrow>
      EntriesByPath w p = Some e \<or>
      (e \<in> set (Entries (list_result rp)) \<and>
       (FolderWatcher.Cursor w \<noteq> [] \<longrightarrow> is_content e))) \<and>
   (FolderWatcher.Cursor w \<noteq> [] \<and>
    (\<forall>x \<in> set (Entries (list_result rp)). \<not> is_content x) \<longrightarrow>
      EntriesById (step_watcher (fetch w tr rp)) \<subseteq>\<^sub>m EntriesById w \<and>
      EntriesByPath (step_watcher (fetch w tr rp)) \<subseteq>\<^sub>m EntriesByPath w)"
proof (intro conjI)
  show "EntriesById (step_watcher (fetch w tr rp)) k = Some e \<longrightarrow>
      EntriesById w k = Some e \<or>
      (e \<in> set (Entries (list_result rp)) \<and>
       (FolderWatcher.Cursor w \<noteq> [] \<longrightarrow> is_content e))"
    using fetch_new_rows [of w tr rp k e] by (rule conjunct1)
  show "EntriesByPath (step_watcher (fetch w tr rp)) p = Some e \<longrightarrow>
      EntriesByPath w p = Some e \<or>
      (e \<in> set (Entries (list_result rp)) \<and>
       (FolderWatcher.Cursor w \<noteq> [] \<longrightarrow> is_content e))"
    using fetch_new_rows [of w tr rp p e] by (rule conjunct2)
  show "FolderWatcher.Cursor w \<noteq> [] \<and>
      (\<forall>x \<in> set (Entries (list_result rp)). \<not> is_content x) \<longrightarrow>
      EntriesById (step_watcher (fetch w tr rp)) \<subseteq>\<^sub>m EntriesById w \<and>
      EntriesByPath (step_watcher (fetch w tr rp)) \<subseteq>\<^sub>m EntriesByPath w"
  proof
    assume a: "FolderWatcher.Cursor w \<noteq> [] \<and>
      (\<forall>x \<in> set (Entries (list_result rp)). \<not> is_content x)"
    show "EntriesById (step_watcher (fetch w tr rp)) \<subseteq>\<^sub>m EntriesById w \<and>
      EntriesByPath (step_watcher (fetch w tr rp)) \<subseteq>\<^sub>m EntriesByPath w"
      unfolding map_le_def
    proof (intro conjI ballI)
      fix j assume "j \<in> dom (EntriesById (step_watcher (fetch w tr rp)))"
      then obtain d where d: "EntriesById (step_watcher (fetch w tr rp)) j = Some d" by blast
      have "EntriesById w j = Some d \<or>
          (d \<in> set (Entries (list_result rp)) \<and>
           (FolderWatcher.Cursor w \<noteq> [] \<longrightarrow> is_content d))"
        using fetch_new_rows [of w tr rp j d] d by simp
      with a have "EntriesById w j = Some d" by auto
      with d show "EntriesById (step_watcher (fetch w tr rp)) j = EntriesById w j" by simp
    next
      fix j assume "j \<in> dom (EntriesByPath (step_watcher (fetch w tr rp)))"
      then obtain d where d: "EntriesByPath (step_watcher (fetch w tr rp)) j = Some d"
        by blast
      have "EntriesByPath w j = Some d \<or>
          (d \<in> set (Entries (list_result rp)) \<and>
           (FolderWatcher.Cursor w \<noteq> [] \<longrightarrow> is_content d))"
        using fetch_new_rows [of w tr rp j d] d by simp
      with a have "EntriesByPath w j = Some d" by auto
      with d show "EntriesByPath (step_watcher (fetch w tr rp)) j = EntriesByPath w j" by simp
    qed
  qed
qed

text \<open>
  The theorem at the store \<open>{id1 at /x}\<close>: the batch \<open>[tombstone /x, content id2 at /y]\<close>
  stores the content row, and the batch \<open>[tombstone /x]\<close> only empties the slot.
\<close>

theorem fetch_stores_rows_witness:
  "EntriesById (step_watcher (fetch (ex_tracking [ex_A]) []
       (ex_listing [ex_T, ex_B] ''c1'' False))) ''id2'' = Some ex_B \<and>
   EntriesById (ex_tracking [ex_A]) ''id2'' = None \<and>
   ex_B \<in> set (Entries (list_result (ex_listing [ex_T, ex_B] ''c1'' False))) \<and>
   is_content ex_B \<and>
   EntriesByPath (step_watcher (fetch (ex_tracking [ex_A]) []
       (ex_listing [ex_T, ex_B] ''c1'' False))) ''/y'' = Some ex_B \<and>
   EntriesByPath (ex_tracking [ex_A]) ''/y'' = None \<and>
   FolderWatcher.Cursor (ex_tracking [ex_A]) \<noteq> [] \<and>
   Entries (list_result (ex_listing [ex_T] ''c1'' False)) = [ex_T] \<and> \<not> is_content ex_T \<and>
   EntriesById (step_watcher (fetch (ex_tracking [ex_A]) [] (ex_listing [ex_T] ''c1'' False)))
     \<subseteq>\<^sub>m EntriesById (ex_tracking [ex_A]) \<and>
   EntriesByPath (step_watcher (fetch (ex_tracking [ex_A]) [] (ex_listing [ex_T] ''c1'' False)))
     \<subseteq>\<^sub>m EntriesByPath (ex_tracking [ex_A]) \<and>
   EntriesByPath (step_watcher (fetch (ex_tracking [ex_A]) [] (ex_listing [ex_T] ''c1'' False)))
     ''/x'' = None"
proof -
  have s: "EntriesById (step_watcher (fetch (ex_tracking [ex_A]) []
             (ex_listing [ex_T, ex_B] ''c1'' False))) ''id2'' = Some ex_B"
    "EntriesByPath (step_watcher (fetch (ex_tracking [ex_A]) []
             (ex_listing [ex_T, ex_B] ''c1'' False))) ''/y'' = Some ex_B"
    "EntriesByPath (step_watcher (fetch (ex_tracking [ex_A]) []
             (ex_listing [ex_T] ''c1'' False))) ''/x'' = None"
    by (simp_all add: run_defs ex_defs)
  have o: "EntriesById (ex_tracking [ex_A]) ''id2'' = None"
    "EntriesByPath (ex_tracking [ex_A]) ''/y'' = None"
    "FolderWatcher.Cursor (ex_tracking [ex_A]) \<noteq> []"
    "Entries (list_result (ex_listing [ex_T] ''c1'' False)) = [ex_T]" "\<not> is_content ex_T"
    by (simp_all add: ex_simps)
  note stored = fetch_stores_rows
    [where w = "ex_tracking [ex_A]" and tr = "[]"
       and rp = "ex_listing [ex_T, ex_B] ''c1'' False"
       and k = "''id2''" and p = "''/y''" and e = ex_B]
  note only_tombstones = fetch_stores_rows
    [where w = "ex_tracking [ex_A]" and tr = "[]" and rp = "ex_listing [ex_T] ''c1'' False"
       and k = "''id2''" and p = "''/y''" and e = ex_B]
  show ?thesis using stored only_tombstones s o by simp
qed

text \<open>
  A tombstone row in the reply to the initial listing is stored, under its path and
  under its empty identity.
\<close>

theorem fetchInitial_stores_tombstone:
  "FolderWatcher.Cursor ex_watcher = [] \<and> \<not> is_content ex_T \<and>
   EntriesByPath (step_watcher (fetch ex_watcher [] (ex_listing [ex_T] ''c0'' False))) ''/x'' =
     Some ex_T \<and>
   EntriesById (step_watcher (fetch ex_watcher [] (ex_listing [ex_T] ''c0'' False))) [] =
     Some ex_T"
  by (simp add: run_defs ex_defs is_content_def)

section \<open>The two maps after a run\<close>

text \<open>
  C2, as the code has it. Start from the watcher the constructor makes and run on any
  script of replies. In the store at the end (and so after every pass on the way):
  every entry of the identity map is filed under its own identity, so
  \<open>byIdentity[e.identity]\<close> is \<open>e\<close>, and no two entries of that map share an identity;
  every entry of the path map is filed under its own path, so \<open>byPath[e.pathKey]\<close> is
  \<open>e\<close>, and no two entries of that map share a path. The two maps need not hold the
  same entries.
\<close>

theorem store_keys_after_run:
  assumes "NewFolderWatcher client path m = Some w0"
  shows "(\<forall>k e. EntriesById (outcome_watcher (Run w0 [] script)) k = Some e \<longrightarrow>
            Id' e = k \<and> EntriesById (outcome_watcher (Run w0 [] script)) (Id' e) = Some e) \<and>
         (\<forall>p e. EntriesByPath (outcome_watcher (Run w0 [] script)) p = Some e \<longrightarrow>
            PathLower e = p \<and>
            EntriesByPath (outcome_watcher (Run w0 [] script)) (PathLower e) = Some e) \<and>
         (\<forall>j k d e. EntriesById (outcome_watcher (Run w0 [] script)) j = Some d \<and>
            EntriesById (outcome_watcher (Run w0 [] script)) k = Some e \<and> Id' d = Id' e \<longrightarrow>
            d = e) \<and>
         (\<forall>p q d e. EntriesByPath (outcome_watcher (Run w0 [] script)) p = Some d \<and>
            EntriesByPath (outcome_watcher (Run w0 [] script)) q = Some e \<and>
            PathLower d = PathLower e \<longrightarrow> d = e)"
proof -
  let ?W = "outcome_watcher (Run w0 [] script)"
  from assms have "keys_agree w0"
    by (auto simp add: NewFolderWatcher_def keys_agree_def Let_def split: option.splits)
  then have ka: "keys_agree ?W" by (rule keys_agree_Run)
  have a: "Id' e = k" if "EntriesById ?W k = Some e" for k e
    using ka that by (simp add: keys_agree_def)
  have b: "PathLower e = p" if "EntriesByPath ?W p = Some e" for p e
    using ka that by (simp add: keys_agree_def)
  show ?thesis
  proof (intro conjI allI impI)
    fix k e assume "EntriesById ?W k = Some e"
    then show "Id' e = k" "EntriesById ?W (Id' e) = Some e" using a by simp_all
  next
    fix p e assume "EntriesByPath ?W p = Some e"
    then show "PathLower e = p" "EntriesByPath ?W (PathLower e) = Some e" using b by simp_all
  next
    fix j k d e
    assume h: "EntriesById ?W j = Some d \<and> EntriesById ?W k = Some e \<and> Id' d = Id' e"
    then have "j = k" using a [of j d] a [of k e] by simp
    with h show "d = e" by auto
  next
    fix p q d e
    assume h: "EntriesByPath ?W p = Some d \<and> EntriesByPath ?W q = Some e \<and>
      PathLower d = PathLower e"
    then have "p = q" using b [of p d] b [of q e] by simp
    with h show "d = e" by auto
  qed
qed

text \<open>The theorem after an initial listing of \<open>id1 at /x\<close> and \<open>id2 at /y\<close>.\<close>

theorem store_keys_after_run_witness:
  "NewFolderWatcher (Some \<lparr>AccessToken = ''token''\<rparr>) ''/'' DirModeRecursive =
     Some ex_watcher \<and>
   EntriesById (outcome_watcher (Run ex_watcher [] [ex_listing [ex_A, ex_B] ''c0'' False]))
     ''id1'' = Some ex_A \<and> Id' ex_A = ''id1'' \<and>
   EntriesByPath (outcome_watcher (Run ex_watcher [] [ex_listing [ex_A, ex_B] ''c0'' False]))
     ''/y'' = Some ex_B \<and> PathLower ex_B = ''/y''"
proof -
  have n: "NewFolderWatcher (Some \<lparr>AccessToken = ''token''\<rparr>) ''/'' DirModeRecursive =
      Some ex_watcher"
    by (simp add: NewFolderWatcher_def ex_watcher_def Let_def)
  have s: "EntriesById (outcome_watcher (Run ex_watcher [] [ex_listing [ex_A, ex_B] ''c0'' False]))
       ''id1'' = Some ex_A"
    "EntriesByPath (outcome_watcher (Run ex_watcher [] [ex_listing [ex_A, ex_B] ''c0'' False]))
       ''/y'' = Some ex_B"
    by (simp_all add: Run.simps run_defs ex_defs)
  show ?thesis
    using store_keys_after_run [OF n, of "[ex_listing [ex_A, ex_B] ''c0'' False]"] n s by auto
qed

text \<open>
  From the empty store: an initial listing of \<open>id1 at /x\<close>, then an incremental batch
  with the one content row \<open>id1 at /y\<close>. The path map still holds the old entry at
  \<open>/x\<close>, while the identity map holds the new row under \<open>id1\<close>: two distinct stored
  entries share an identity, and \<open>byIdentity[e.identity]\<close> is not \<open>e\<close> for the old one.
\<close>

theorem store_maps_disagree_after_move:
  "NewFolderWatcher (Some \<lparr>AccessToken = ''token''\<rparr>) ''/'' DirModeRecursive =
     Some ex_watcher \<and>
   EntriesByPath (outcome_watcher (Run ex_watcher []
       [ex_listing [ex_A] ''c0'' True, ex_listing [ex_entry ''file'' ''id1'' ''/y''] ''c1'' False]))
     ''/x'' = Some ex_A \<and>
   EntriesById (outcome_watcher (Run ex_watcher []
       [ex_listing [ex_A] ''c0'' True, ex_listing [ex_entry ''file'' ''id1'' ''/y''] ''c1'' False]))
     (Id' ex_A) = Some (ex_entry ''file'' ''id1'' ''/y'') \<and>
   ex_entry ''file'' ''id1'' ''/y'' \<noteq> ex_A"
  by (simp add: NewFolderWatcher_def Run.simps run_defs ex_defs)

section \<open>Cursor continuity\<close>

lemma checkCanceledAndExit_trace:
  "\<exists>evs. step_trace (checkCanceledAndExit w rcv tr) = tr @ evs"
  by (auto simp add: checkCanceledAndExit_def send_exitch_def
      split: prod.splits bool.splits option.splits)

lemma checkResult_trace: "\<exists>evs. step_trace (checkResult w rcv tr r err) = tr @ evs"
proof (cases err)
  case (Some e)
  then show ?thesis by (auto simp add: checkResult_def send_exitch_def split: option.splits)
next
  case None
  obtain evs where e: "step_trace (checkCanceledAndExit w rcv tr) = tr @ evs"
    using checkCanceledAndExit_trace by blast
  show ?thesis
  proof (cases "checkCanceledAndExit w rcv tr")
    case (Done c w' tr')
    then show ?thesis using None e by (auto simp add: checkResult_def)
  next
    case (Stuck w' tr')
    then show ?thesis using None e by (auto simp add: checkResult_def)
  qed
qed

text \<open>An incremental \<open>fetch\<close> begins with a request that carries the stored cursor.\<close>

lemma fetch_first_event:
  assumes "FolderWatcher.Cursor v \<noteq> []"
  shows "\<exists>evs. step_trace (fetch v tr rp) =
           tr @ Sent (ListFolderContReq (FolderWatcher.Cursor v)) # evs"
proof -
  let ?tr1 = "tr @ [Sent (ListFolderContReq (FolderWatcher.Cursor v))]"
  let ?c = "checkResult (in_flight rp v) (exit_received rp) ?tr1 (list_result rp) (Send_err rp)"
  obtain evs where e: "step_trace ?c = ?tr1 @ evs" using checkResult_trace by blast
  show ?thesis
  proof (cases ?c)
    case (Stuck w' tr')
    then show ?thesis using assms e by (simp add: fetch_unfold)
  next
    case (Done ok w' tr')
    then show ?thesis using assms e by (simp add: fetch_unfold)
  qed
qed

lemma waitForChanges_trace: "\<exists>evs. outcome_trace (waitForChanges v tr s) = tr @ evs"
proof (induction s arbitrary: v tr)
  case Nil
  show ?case by simp
next
  case (Cons rp rest)
  let ?tr1 = "tr @ [Sent (ListFolderLongpollReq (FolderWatcher.Cursor v) 30)]"
  show ?case
  proof (cases "Send_err rp")
    case (Some e)
    then show ?thesis by (auto simp add: Let_def send_exitch_def split: option.splits)
  next
    case None
    obtain evs where e: "step_trace (checkCanceledAndExit (in_flight rp v) (exit_received rp) ?tr1) = ?tr1 @ evs"
      using checkCanceledAndExit_trace by blast
    show ?thesis
    proof (cases "checkCanceledAndExit (in_flight rp v) (exit_received rp) ?tr1")
      case (Stuck w2 tr2)
      then show ?thesis using None e by (simp add: Let_def)
    next
      case (Done c w2 tr2)
      let ?tr3 = "if 0 < Backoff (poll_result rp)
                  then tr2 @ [Slept (sleep_arg (Backoff (poll_result rp)))] else tr2"
      obtain evs' where e': "outcome_trace (waitForChanges w2 ?tr3 rest) = ?tr3 @ evs'"
        using Cons.IH by blast
      show ?thesis using None Done e e'
        by (cases "0 < Backoff (poll_result rp)") (auto simp add: Let_def)
    qed
  qed
qed

text \<open>A long-poll request carries the stored cursor and the wait budget of 30 seconds.\<close>

lemma waitForChanges_first_event:
  "\<exists>evs. outcome_trace (waitForChanges v tr (rp # rest)) =
           tr @ Sent (ListFolderLongpollReq (FolderWatcher.Cursor v) 30) # evs"
proof -
  let ?tr1 = "tr @ [Sent (ListFolderLongpollReq (FolderWatcher.Cursor v) 30)]"
  show ?thesis
  proof (cases "Send_err rp")
    case (Some e)
    then show ?thesis by (auto simp add: Let_def send_exitch_def split: option.splits)
  next
    case None
    obtain evs where e: "step_trace (checkCanceledAndExit (in_flight rp v) (exit_received rp) ?tr1) = ?tr1 @ evs"
      using checkCanceledAndExit_trace by blast
    show ?thesis
    proof (cases "checkCanceledAndExit (in_flight rp v) (exit_received rp) ?tr1")
      case (Stuck w2 tr2)
      then show ?thesis using None e by (simp add: Let_def)
    next
      case (Done c w2 tr2)
      let ?tr3 = "if 0 < Backoff (poll_result rp)
                  then tr2 @ [Slept (sleep_arg (Backoff (poll_result rp)))] else tr2"
      obtain evs' where e': "outcome_trace (waitForChanges w2 ?tr3 rest) = ?tr3 @ evs'"
        using waitForChanges_trace by blast
      show ?thesis using None Done e e'
        by (cases "0 < Backoff (poll_result rp)") (auto simp add: Let_def)
    qed
  qed
qed

lemma fetch_accepts_result:
  assumes "send_err rp = None" and "\<not> fst (checkCanceled (in_flight rp w))"
  shows "\<exists>w' tr'. fetch w tr rp = Done True w' tr' \<and>
           FolderWatcher.Cursor w' = ListFolderResult.Cursor (list_result rp) \<and>
           hasMore w' = HasMore (list_result rp)"
proof (cases "FolderWatcher.Cursor w = []")
  case True
  then show ?thesis using assms
    by (simp add: fetch_def fetchInitial_def Send_err_def checkResult_accepts Let_def)
next
  case False
  then show ?thesis using assms
    by (simp add: fetch_unfold Send_err_def checkResult_accepts)
qed

text \<open>
  C5. A listing response is successful when \<open>checkResult\<close> accepts it: the request,
  initial or incremental, came back without an error and no cancellation is seen at that
  moment. Then \<open>fetch\<close> returns true with the cursor and the has-more flag of the reply
  stored, whatever rows the reply holds, none included. When that cursor is not empty,
  the next \<open>fetch\<close> asks for the changes since exactly that cursor; and the next
  long-poll carries it too.
\<close>

theorem fetch_stores_cursor:
  assumes "send_err rp = None" and "\<not> fst (checkCanceled (in_flight rp w))"
  shows "\<exists>w' tr'. fetch w tr rp = Done True w' tr' \<and>
           FolderWatcher.Cursor w' = ListFolderResult.Cursor (list_result rp) \<and>
           hasMore w' = HasMore (list_result rp) \<and>
           (ListFolderResult.Cursor (list_result rp) \<noteq> [] \<longrightarrow>
              (\<forall>tr2 rp2. \<exists>evs. step_trace (fetch w' tr2 rp2) =
                 tr2 @ Sent (ListFolderContReq (ListFolderResult.Cursor (list_result rp))) # evs)) \<and>
           (\<forall>tr2 rp2 rest. \<exists>evs. outcome_trace (waitForChanges w' tr2 (rp2 # rest)) =
                 tr2 @ Sent (ListFolderLongpollReq (ListFolderResult.Cursor (list_result rp)) 30)
                       # evs)"
proof -
  from fetch_accepts_result [OF assms] obtain w' tr' where
    f: "fetch w tr rp = Done True w' tr'" and
    c: "FolderWatcher.Cursor w' = ListFolderResult.Cursor (list_result rp)" and
    h: "hasMore w' = HasMore (list_result rp)"
    by blast
  have n: "\<exists>evs. step_trace (fetch w' tr2 rp2) =
        tr2 @ Sent (ListFolderContReq (ListFolderResult.Cursor (list_result rp))) # evs"
    if "ListFolderResult.Cursor (list_result rp) \<noteq> []" for tr2 rp2
    using fetch_first_event [of w' tr2 rp2] that c by simp
  have p: "\<exists>evs. outcome_trace (waitForChanges w' tr2 (rp2 # rest)) =
        tr2 @ Sent (ListFolderLongpollReq (ListFolderResult.Cursor (list_result rp)) 30) # evs"
    for tr2 rp2 rest
    using waitForChanges_first_event [of w' tr2 rp2 rest] c by simp
  show ?thesis using f c h n p by blast
qed

text \<open>The theorem at a reply with no rows, the cursor \<open>c1\<close> and more pages to come.\<close>

theorem fetch_stores_cursor_witness:
  "send_err (ex_listing [] ''c1'' True) = None \<and>
   \<not> fst (checkCanceled (in_flight (ex_listing [] ''c1'' True) (ex_tracking [ex_A]))) \<and>
   Entries (list_result (ex_listing [] ''c1'' True)) = [] \<and>
   (\<exists>w' tr'. fetch (ex_tracking [ex_A]) [] (ex_listing [] ''c1'' True) = Done True w' tr' \<and>
      FolderWatcher.Cursor w' = ''c1'' \<and> hasMore w' \<and>
      (\<forall>tr2 rp2. \<exists>evs. step_trace (fetch w' tr2 rp2) =
         tr2 @ Sent (ListFolderContReq ''c1'') # evs))"
proof -
  have h1: "send_err (ex_listing [] ''c1'' True) = None" by (simp add: ex_defs)
  have h2: "\<not> fst (checkCanceled (in_flight (ex_listing [] ''c1'' True) (ex_tracking [ex_A])))"
    by (simp add: ex_simps)
  have r: "ListFolderResult.Cursor (list_result (ex_listing [] ''c1'' True)) = ''c1''"
    "HasMore (list_result (ex_listing [] ''c1'' True))"
    "Entries (list_result (ex_listing [] ''c1'' True)) = []"
    by (simp_all add: ex_defs)
  show ?thesis using fetch_stores_cursor [OF h1 h2, of "[]"] h1 h2 r by auto
qed

text \<open>
  The other replies are not accepted, and leave the cursor alone. A reply that comes
  back while a cancellation is pending is dropped: the cursor, the has-more flag and both
  maps stay as they were, and the cancellation error is offered on the exit channel.
\<close>

lemma fetch_discards_on_cancel:
  assumes "send_err rp = None" and "fst (checkCanceled (in_flight rp w))"
  shows "FolderWatcher.Cursor (step_watcher (fetch w tr rp)) = FolderWatcher.Cursor w"
    and "hasMore (step_watcher (fetch w tr rp)) = hasMore w"
    and "EntriesById (step_watcher (fetch w tr rp)) = EntriesById w"
    and "EntriesByPath (step_watcher (fetch w tr rp)) = EntriesByPath w"
    and "\<exists>q. fetch w tr rp =
           (if exitch w \<noteq> None \<and> exit_received rp
            then Done False (snd (checkCanceled (in_flight rp w)))
                   (tr @ [Sent q, ExitSend ErrCanceled])
            else Stuck (snd (checkCanceled (in_flight rp w))) (tr @ [Sent q]))"
  using assms
  by (auto simp add: fetch_def fetchInitial_def checkResult_def checkCanceledAndExit_def
      checkCanceled_def send_exitch_def Send_err_def in_flight_def Cancel_def Let_def
      split: option.splits if_splits)

lemma fetch_discards_on_cancel_example:
  "fetch (ex_tracking []) [] ((ex_listing [] ''c1'' True)\<lparr>cancel_during := True\<rparr>) =
     Done False (ex_tracking []\<lparr>canceled := True\<rparr>)
       [Sent (ListFolderContReq ''c0''), ExitSend ErrCanceled] \<and>
   FolderWatcher.Cursor (ex_tracking []\<lparr>canceled := True\<rparr>) = ''c0''"
  by (simp add: run_defs ex_defs)

section \<open>Transport errors end the run\<close>

text \<open>
  C7. Let the run loop have taken the replies \<open>pre\<close> and be waiting for the next one,
  in either phase, with its exit channel made, and let the caller receive from \<open>Exit\<close>.
  If that reply is a transport error, then \<open>Run\<close> makes that one request, hands exactly
  that error over on the exit channel and returns; whatever replies the script holds
  after it are left untouched. Over the whole run the error is the only value sent on
  the exit channel, one request was made for each reply taken (the failed one is not
  made again), and the error is not the cancellation sentinel.
\<close>

theorem Run_transport_error_is_terminal:
  assumes "Run w [] pre = Awaiting ph w' tr'" and "send_err rp = Some msg"
    and "exitch w \<noteq> None" and "exit_received rp"
  shows "\<exists>q. Run w [] (pre @ rp # rest) =
              Returns () (in_flight rp w') (tr' @ [Sent q, ExitSend (ForeignError msg)]) rest \<and>
            exit_sends (tr' @ [Sent q, ExitSend (ForeignError msg)]) = [ForeignError msg] \<and>
            length (requests (tr' @ [Sent q, ExitSend (ForeignError msg)])) = length pre + 1 \<and>
            ForeignError msg \<noteq> ErrCanceled"
proof -
  note ra = Run_Awaiting [OF assms(1), of rp msg rest]
  from ra assms(2,3,4) obtain q where
    "Run w [] (pre @ rp # rest) =
       Returns () (in_flight rp w') (tr' @ [Sent q, ExitSend (ForeignError msg)]) rest"
    by auto
  moreover have "exit_sends tr' = []" "length (requests tr') = length pre" using ra by simp_all
  ultimately show ?thesis by (auto simp add: ErrCanceled_def)
qed

text \<open>
  The theorem after an initial listing and one quiet long-poll: the second long-poll
  fails, and the reply that would have announced changes is never asked for.
\<close>

theorem Run_transport_error_is_terminal_witness:
  "exitch ex_watcher \<noteq> None \<and> send_err (ex_failure ''boom'') = Some ''boom'' \<and>
   exit_received (ex_failure ''boom'') \<and>
   (\<exists>w' q. Run ex_watcher []
        ([ex_listing [ex_A] ''c0'' False, ex_poll False 0] @
         ex_failure ''boom'' # [ex_poll True 0]) =
      Returns () w'
        [Sent (ListFolderReq ''/'' True False False False),
         Changed \<lparr>Added = [''id1''], Updated = [], Removed = []\<rparr>,
         Sent (ListFolderLongpollReq ''c0'' 30), Sent q, ExitSend (ForeignError ''boom'')]
        [ex_poll True 0])"
proof -
  let ?pre = "[ex_listing [ex_A] ''c0'' False, ex_poll False 0]"
  have h1: "Run ex_watcher [] ?pre =
      Awaiting LongPolling (outcome_watcher (Run ex_watcher [] ?pre))
        [Sent (ListFolderReq ''/'' True False False False),
         Changed \<lparr>Added = [''id1''], Updated = [], Removed = []\<rparr>,
         Sent (ListFolderLongpollReq ''c0'' 30)]"
    by (simp add: Run.simps run_defs ex_defs)
  have h2: "send_err (ex_failure ''boom'') = Some ''boom''" by (simp add: ex_defs)
  have h3: "exitch ex_watcher \<noteq> None" by (simp add: ex_defs)
  have h4: "exit_received (ex_failure ''boom'')" by (simp add: ex_defs)
  show ?thesis
    using Run_transport_error_is_terminal [OF h1 h2 h3 h4, of "[ex_poll True 0]"] h2 h3 h4
    by auto
qed

text \<open>
  When nobody receives from \<open>Exit\<close>, or the exit channel is nil, the run does not
  return: the worker stays in the send of the error. It has made the failed request once
  and makes no other; nothing was handed over on the exit channel.
\<close>

lemma Run_transport_error_unreceived:
  assumes "Run w [] pre = Awaiting ph w' tr'" and "send_err rp = Some msg"
    and "exitch w = None \<or> \<not> exit_received rp"
  shows "\<exists>q. Run w [] (pre @ rp # rest) = Parked (in_flight rp w') (tr' @ [Sent q]) \<and>
            exit_sends (tr' @ [Sent q]) = [] \<and>
            length (requests (tr' @ [Sent q])) = length pre + 1"
proof -
  note ra = Run_Awaiting [OF assms(1), of rp msg rest]
  from ra assms(2,3) obtain q where
    "Run w [] (pre @ rp # rest) = Parked (in_flight rp w') (tr' @ [Sent q])"
    by auto
  moreover have "exit_sends tr' = []" "length (requests tr') = length pre" using ra by simp_all
  ultimately show ?thesis by auto
qed

lemma Run_transport_error_unreceived_example:
  "Run ex_watcher [] [(ex_failure ''boom'')\<lparr>exit_received := False\<rparr>, ex_poll True 0] =
     Parked ex_watcher [Sent (ListFolderReq ''/'' True False False False)]"
  by (simp add: Run.simps run_defs ex_defs)

section \<open>Backoff\<close>

text \<open>
  Up to 9223372036 seconds the product does not wrap: the driver sleeps for the backoff
  it was given, then polls again or hands control back with \<open>hasMore\<close> set.
\<close>

lemma sleep_arg_in_range:
  assumes b: "b \<le> 9223372036"
  shows "sleep_arg b = uint b * 1000000000"
proof -
  from b have u: "uint b \<le> 9223372036" by (simp add: word_le_def)
  have nn: "0 \<le> uint b * 1000000000" by simp
  have lt: "uint b * 1000000000 < 2 ^ 63" using u by simp
  have "uint (b * Second) = (uint b * 1000000000) mod 2 ^ 64"
    by (simp add: Second_def uint_word_ariths)
  also have "\<dots> = uint b * 1000000000" using lt nn by simp
  finally have eq: "uint (b * Second) = uint b * 1000000000" .
  have "- (2 ^ 63) \<le> (0::int)" by simp
  from this nn have ge: "- (2 ^ 63) \<le> uint b * 1000000000" by (rule order_trans)
  have "signed_take_bit 63 (uint b * 1000000000) = uint b * 1000000000"
    using ge lt by (rule signed_take_bit_int_eq_self)
  then have "sint (b * Second) = uint b * 1000000000"
    by (simp add: sint_uint eq)
  then show ?thesis by (simp add: sleep_arg_def)
qed

lemma waitForChanges_backoff_in_range:
  assumes "send_err rp = None" and "\<not> fst (checkCanceled (in_flight rp w))"
    and "0 < Backoff (poll_result rp)" and "Backoff (poll_result rp) \<le> 9223372036"
  shows "waitForChanges w tr (rp # rest) =
     (if Changes (poll_result rp)
      then Returns True ((in_flight rp w)\<lparr>hasMore := True\<rparr>)
             (tr @ [Sent (ListFolderLongpollReq (FolderWatcher.Cursor w) 30),
                    Slept (uint (Backoff (poll_result rp)) * 1000000000)]) rest
      else waitForChanges (in_flight rp w)
             (tr @ [Sent (ListFolderLongpollReq (FolderWatcher.Cursor w) 30),
                    Slept (uint (Backoff (poll_result rp)) * 1000000000)]) rest)"
  using assms
  by (simp add: Send_err_def checkCanceledAndExit_def checkCanceled_False sleep_arg_in_range
      Let_def)

text \<open>
  C8 asks for a wait of at least \<open>N\<close> seconds after every long-poll reply with backoff
  \<open>N > 0\<close>. At \<open>N = 9223372037\<close> the product \<open>N * 1000000000\<close> wraps in 64 bits to a
  negative duration, \<open>time.Sleep\<close> returns at once, and the next long-poll goes out with
  no wait between the two.
\<close>

theorem waitForChanges_backoff_wraps:
  "waitForChanges (ex_tracking []) [] [ex_poll False 9223372037, ex_poll True 0] =
     Returns True (ex_tracking []\<lparr>hasMore := True\<rparr>)
       [Sent (ListFolderLongpollReq ''c0'' 30), Slept (- 9223372036709551616),
        Sent (ListFolderLongpollReq ''c0'' 30)] []"
  by (simp add: run_defs ex_defs sleep_arg_def Second_def)

section \<open>Cancel\<close>

text \<open>
  C9 asks that \<open>Cancel\<close> never blocks, however often and whenever it is called. After a
  run that ended with a transport error, the first \<open>Cancel\<close> fills the one place of the
  buffer and the second is parked; nothing receives from the channel any more, so it
  stays parked.
\<close>

theorem Cancel_second_send_parks:
  "Run ex_watcher [] [ex_failure ''boom''] =
     Returns () ex_watcher
       [Sent (ListFolderReq ''/'' True False False False), ExitSend (ForeignError ''boom'')] [] \<and>
   Cancel ex_watcher = Some (ex_watcher\<lparr>cancelch := Some \<lparr>chan_cap = 1, chan_len = 1\<rparr>\<rparr>) \<and>
   Cancel (ex_watcher\<lparr>cancelch := Some \<lparr>chan_cap = 1, chan_len = 1\<rparr>\<rparr>) = None"
  by (simp add: Run.simps run_defs ex_defs)

end
